theory Spec2Isabelle
  imports Complex_Main "HOL-Library.Sublist" "HOL-Library.Log_Nat"
begin

section \<open>Python values used by the retrieval engine\<close>

text \<open>
  The engine of \<^verbatim>\<open>ir.py\<close> is the class \<^verbatim>\<open>InformationRetrievalSystem\<close>. Its
  dictionaries are insertion-ordered Python dicts and are modelled as association lists
  that keep the insertion order; Python strings are lists of characters with code points
  below 256, \<^verbatim>\<open>None\<close> in the place of a string is the \<open>None\<close> of an option, and every
  exception the code can raise is a value of \<open>py_error\<close>.

  Python floats are real numbers here. The quotient \<^verbatim>\<open>count / len(...)\<close> of a term
  frequency is the double nearest to the exact quotient, as IEEE 754 and Python define it
  (\<open>double_quotient\<close>). The quotient \<^verbatim>\<open>N / df\<close> under the logarithm of an IDF value,
  the logarithm itself, the products, the sums, the square root and the division of the
  scoring are the operations of the reals: \<^verbatim>\<open>math.log\<close> is no IEEE operation, and its
  result is that of the C library. A weight or a score of this theory therefore differs
  from the double that the source computes by the rounding of these operations.
\<close>

datatype py_error =
  FileNotFoundError | IsADirectoryError | PermissionError | UnicodeDecodeError
  | KeyError | TypeError | ValueError | ZeroDivisionError

type_synonym ('k, 'v) dict = "('k \<times> 'v) list"

text \<open>\<^verbatim>\<open>d[k] = v\<close>: an existing key keeps its position, a new key goes last.\<close>

fun dict_set :: "('k, 'v) dict \<Rightarrow> 'k \<Rightarrow> 'v \<Rightarrow> ('k, 'v) dict" where
  "dict_set [] k v = [(k, v)]"
| "dict_set ((k', v') # d) k v =
     (if k' = k then (k', v) # d else (k', v') # dict_set d k v)"

text \<open>\<^verbatim>\<open>d[k]\<close> on a plain dict raises \<^verbatim>\<open>KeyError\<close> for a missing key.\<close>

definition dict_get :: "('k, 'v) dict \<Rightarrow> 'k \<Rightarrow> py_error + 'v" where
  "dict_get d k = (case map_of d k of None \<Rightarrow> Inl KeyError | Some v \<Rightarrow> Inr v)"

text \<open>\<^verbatim>\<open>d[k]\<close> on a \<^verbatim>\<open>defaultdict\<close> with default \<open>dflt\<close>.\<close>

definition dict_get_default :: "'v \<Rightarrow> ('k, 'v) dict \<Rightarrow> 'k \<Rightarrow> 'v" where
  "dict_get_default dflt d k = (case map_of d k of None \<Rightarrow> dflt | Some v \<Rightarrow> v)"

text \<open>\<^verbatim>\<open>k in d\<close>.\<close>

definition dict_contains :: "('k, 'v) dict \<Rightarrow> 'k \<Rightarrow> bool" where
  "dict_contains d k = (map_of d k \<noteq> None)"

subsection \<open>Strings\<close>

text \<open>\<^verbatim>\<open>str.lower\<close> on code points below 256: the ASCII capitals (65 to 90) and
  the Latin-1 capitals (192 to 222 without the multiplication sign 215) move up by 32.
  Bit 5 is clear in each of them, so adding 32 sets that bit.\<close>

fun lower_char :: "char \<Rightarrow> char" where
  "lower_char (Char b0 b1 b2 b3 b4 b5 b6 b7) =
     (let n = (of_char (Char b0 b1 b2 b3 b4 b5 b6 b7) :: nat)
      in if (65 \<le> n \<and> n \<le> 90) \<or> (192 \<le> n \<and> n \<le> 222 \<and> n \<noteq> 215)
         then Char b0 b1 b2 b3 b4 True b6 b7 else Char b0 b1 b2 b3 b4 b5 b6 b7)"

definition lower :: "string \<Rightarrow> string" where
  "lower s = map lower_char s"

definition is_az :: "char \<Rightarrow> bool" where
  "is_az c = (let n = (of_char c :: nat) in 97 \<le> n \<and> n \<le> 122)"

text \<open>\<^verbatim>\<open>re.findall(r'[a-z]+', text)\<close>: the maximal runs of the letters a to z, from
  left to right. \<open>cur\<close> is the run being read, in reverse.\<close>

fun findall_az_from :: "string \<Rightarrow> string \<Rightarrow> string list" where
  "findall_az_from cur [] = (if cur = [] then [] else [rev cur])"
| "findall_az_from cur (c # cs) =
     (if is_az c then findall_az_from (c # cur) cs
      else (if cur = [] then [] else [rev cur]) @ findall_az_from [] cs)"

definition findall_az :: "string \<Rightarrow> string list" where
  "findall_az text = findall_az_from [] text"

definition stopwords :: "string list" where
  "stopwords =
    [''the'', ''a'', ''an'', ''and'', ''or'', ''but'', ''in'', ''on'', ''at'', ''to'', ''for'',
     ''of'', ''with'', ''by'', ''from'', ''is'', ''are'', ''was'', ''were'', ''been'', ''be'',
     ''have'', ''has'', ''had'', ''do'', ''does'', ''did'', ''will'', ''would'', ''should'',
     ''could'', ''may'', ''might'', ''must'', ''shall'', ''can'', ''this'', ''that'', ''these'',
     ''those'', ''i'', ''you'', ''he'', ''she'', ''it'', ''we'', ''they'', ''them'', ''their'',
     ''what'', ''which'', ''who'', ''when'', ''where'', ''why'', ''how'', ''all'', ''each'',
     ''every'', ''some'', ''any'', ''many'', ''much'', ''most'', ''other'', ''another'',
     ''such'', ''no'', ''not'', ''only'', ''own'', ''same'', ''so'', ''than'', ''too'',
     ''very'', ''s'', ''t'', ''just'', ''now'', ''here'', ''there'', ''also'', ''as'']"

text \<open>\<^verbatim>\<open>preprocess_text\<close>: lower case, words of letters, no stop words, length above 2.\<close>

definition preprocess_text :: "string \<Rightarrow> string list" where
  "preprocess_text text =
     filter (\<lambda>w. w \<notin> set stopwords \<and> length w > 2) (findall_az (lower text))"

text \<open>\<^verbatim>\<open>str.strip()\<close>: the white space below code point 256.\<close>

definition is_space :: "char \<Rightarrow> bool" where
  "is_space c =
     (let n = (of_char c :: nat)
      in (9 \<le> n \<and> n \<le> 13) \<or> (28 \<le> n \<and> n \<le> 32) \<or> n = 133 \<or> n = 160)"

definition strip :: "string \<Rightarrow> string" where
  "strip s = rev (dropWhile is_space (rev (dropWhile is_space s)))"

text \<open>\<^verbatim>\<open>sep.join(parts)\<close>.\<close>

fun join :: "string \<Rightarrow> string list \<Rightarrow> string" where
  "join sep [] = []"
| "join sep [p] = p"
| "join sep (p # q # ps) = p @ sep @ join sep (q # ps)"

text \<open>\<^verbatim>\<open>term in sentence\<close>: the substring test.\<close>

fun is_prefix :: "string \<Rightarrow> string \<Rightarrow> bool" where
  "is_prefix [] s = True"
| "is_prefix (c # cs) [] = False"
| "is_prefix (c # cs) (d # ds) = (c = d \<and> is_prefix cs ds)"

fun contains :: "string \<Rightarrow> string \<Rightarrow> bool" where
  "contains t [] = (t = [])"
| "contains t (c # cs) = (is_prefix t (c # cs) \<or> contains t cs)"

text \<open>\<^verbatim>\<open>re.split(r'[.!?]', content)\<close>: every one of the three characters ends a
  piece; the pieces between two neighbouring separators and at both ends are kept, also
  when empty.\<close>

definition is_terminator :: "char \<Rightarrow> bool" where
  "is_terminator c = (c = CHR ''.'' \<or> c = CHR ''!'' \<or> c = CHR ''?'')"

fun re_split :: "string \<Rightarrow> string list" where
  "re_split [] = [[]]"
| "re_split (c # cs) =
     (if is_terminator c then [] # re_split cs
      else (case re_split cs of [] \<Rightarrow> [[c]] | p # ps \<Rightarrow> (c # p) # ps))"

text \<open>\<^verbatim>\<open>int(x)\<close> on a field of a row. \<^verbatim>\<open>None\<close> is a \<^verbatim>\<open>TypeError\<close>. On a
  string the conversion skips white space at both ends, which for \<^verbatim>\<open>int\<close> is the
  ASCII white space (9 to 13 and 32) and the two Latin-1 spaces 133 and 160, not the
  separators 28 to 31 that \<^verbatim>\<open>str.strip\<close> removes; then come an optional sign and decimal
  digits with single underscores between digits. Anything else, and more than 4300
  digits (the default limit of the interpreter), is a \<^verbatim>\<open>ValueError\<close>.\<close>

definition is_digit :: "char \<Rightarrow> bool" where
  "is_digit c = (let n = (of_char c :: nat) in 48 \<le> n \<and> n \<le> 57)"

definition is_int_space :: "char \<Rightarrow> bool" where
  "is_int_space c =
     (let n = (of_char c :: nat) in (9 \<le> n \<and> n \<le> 13) \<or> n = 32 \<or> n = 133 \<or> n = 160)"

fun digits_value :: "nat \<Rightarrow> string \<Rightarrow> nat option" where
  "digits_value acc [] = Some acc"
| "digits_value acc (c # cs) =
     (if is_digit c then digits_value (10 * acc + (of_char c - 48)) cs
      else if c = CHR ''_'' then
        (case cs of [] \<Rightarrow> None
         | d # ds \<Rightarrow> if is_digit d then digits_value acc cs else None)
      else None)"

definition py_int :: "string option \<Rightarrow> py_error + int" where
  "py_int x =
     (case x of
        None \<Rightarrow> Inl TypeError
      | Some s \<Rightarrow>
          (let t = rev (dropWhile is_int_space (rev (dropWhile is_int_space s)));
               neg = (case t of [] \<Rightarrow> False | c # cs \<Rightarrow> c = CHR ''-'');
               body = (case t of [] \<Rightarrow> []
                       | c # cs \<Rightarrow> if c = CHR ''-'' \<or> c = CHR ''+'' then cs else t)
           in case body of
                [] \<Rightarrow> Inl ValueError
              | c # cs \<Rightarrow>
                  if is_digit c \<and> length (filter is_digit body) \<le> 4300 then
                    (case digits_value 0 body of
                       None \<Rightarrow> Inl ValueError
                     | Some n \<Rightarrow> Inr (if neg then - int n else int n))
                  else Inl ValueError))"

text \<open>\<^verbatim>\<open>os.path.join(a, b)\<close> of \<^verbatim>\<open>posixpath\<close>.\<close>

definition path_join :: "string \<Rightarrow> string \<Rightarrow> string" where
  "path_join a b =
     (if (case b of [] \<Rightarrow> False | c # cs \<Rightarrow> c = CHR ''/'') then b
      else if a = [] \<or> last a = CHR ''/'' then a @ b
      else a @ ''/'' @ b)"

text \<open>\<^verbatim>\<open>xs[:k]\<close>: a negative \<open>k\<close> counts from the end.\<close>

definition slice_to :: "int \<Rightarrow> 'a list \<Rightarrow> 'a list" where
  "slice_to k xs =
     (if 0 \<le> k then take (nat k) xs else take (length xs - nat (- k)) xs)"

text \<open>\<^verbatim>\<open>sorted(items, key=lambda x: x[1], reverse=True)\<close>: Python's sort is stable,
  and with \<^verbatim>\<open>reverse=True\<close> it reverses the list, sorts it stably in ascending
  order and reverses the result, so that items with equal keys keep their order.\<close>

definition sorted_reverse :: "('k \<times> real) list \<Rightarrow> ('k \<times> real) list" where
  "sorted_reverse items = rev (sort_key snd (rev items))"

subsection \<open>The quotient of two integers\<close>

text \<open>\<^verbatim>\<open>p / q\<close> on two Python integers is the IEEE 754 double nearest to the exact
  quotient, ties going to the even significand. \<open>binade p q\<close> is the exponent \<open>b\<close> with
  \<open>2\<^sup>b \<le> p / q < 2\<^sup>b\<^sup>+\<^sup>1\<close>; the doubles in that range are the multiples of
  \<open>2\<^sup>b\<^sup>-\<^sup>5\<^sup>2\<close>, and below \<open>2\<^sup>-\<^sup>1\<^sup>0\<^sup>2\<^sup>2\<close> (the subnormal range) the multiples of
  \<open>2\<^sup>-\<^sup>1\<^sup>0\<^sup>7\<^sup>4\<close>. The function is for \<open>q \<noteq> 0\<close> and a quotient below
  \<open>2\<^sup>1\<^sup>0\<^sup>2\<^sup>4\<close>, where Python raises nothing; a term frequency is a count divided by a
  length that is neither 0 nor smaller than the count.\<close>

definition binade :: "nat \<Rightarrow> nat \<Rightarrow> int" where
  "binade p q =
     (let d = int (floorlog 2 p) - int (floorlog 2 q)
      in if real p < real q * 2 powi d then d - 1 else d)"

definition round_half_even :: "real \<Rightarrow> int" where
  "round_half_even x =
     (let f = \<lfloor>x\<rfloor>
      in if x - of_int f < 1 / 2 then f
         else if 1 / 2 < x - of_int f then f + 1
         else if even f then f else f + 1)"

definition double_quotient :: "nat \<Rightarrow> nat \<Rightarrow> real" where
  "double_quotient p q =
     (if p = 0 then 0
      else (let e = max (binade p q - 52) (- 1074)
            in of_int (round_half_even (real p / real q * 2 powi (- e))) * 2 powi e))"

section \<open>The engine state and its environment\<close>

text \<open>One entry of \<^verbatim>\<open>self.metadata\<close>: the dict with the keys \<^verbatim>\<open>title\<close>,
  \<^verbatim>\<open>filename\<close>, \<^verbatim>\<open>url\<close> and \<^verbatim>\<open>date\<close>.\<close>

record meta =
  meta_title :: "string option"
  meta_filename :: "string option"
  meta_url :: "string option"
  meta_date :: "string option"

type_synonym postings = "(int \<times> real) list"

record ir_system =
  articles_dir :: string
  metadata_file :: string
  documents :: "(int, string) dict"
  metadata :: "(int, meta) dict"
  inverted_index :: "(string, postings) dict"
  doc_vectors :: "(int, (string, real) dict) dict"
  doc_lengths :: "(int, real) dict"
  idf_values :: "(string, real) dict"
  N :: nat

text \<open>\<^verbatim>\<open>__init__\<close>.\<close>

definition init :: "string \<Rightarrow> string \<Rightarrow> ir_system" where
  "init dir file =
     \<lparr>articles_dir = dir, metadata_file = file, documents = [], metadata = [],
      inverted_index = [], doc_vectors = [], doc_lengths = [], idf_values = [], N = 0\<rparr>"

text \<open>What \<^verbatim>\<open>pickle.dump\<close> writes: the five structures of \<^verbatim>\<open>save_index\<close>.\<close>

record index_blob =
  blob_inverted_index :: "(string, postings) dict"
  blob_idf_values :: "(string, real) dict"
  blob_doc_vectors :: "(int, (string, real) dict) dict"
  blob_doc_lengths :: "(int, real) dict"
  blob_N :: nat

text \<open>The files the engine reads and writes. Reading the metadata file at a path
  either raises or gives the rows that \<^verbatim>\<open>csv.DictReader\<close> yields, each row a dict from
  the column names of the header to the fields, where the reader puts \<^verbatim>\<open>None\<close> for
  every column that a short row does not reach. Opening and reading the text file at a
  path either raises (no such file, a directory, bytes that are no UTF-8) or gives the
  text.\<close>

type_synonym row = "(string, string option) dict"

record env =
  csv_tables :: "string \<Rightarrow> py_error + row list"
  text_files :: "string \<Rightarrow> py_error + string"
  pickle_files :: "string \<rightharpoonup> index_blob"

section \<open>Corpus loader\<close>

text \<open>The body of the first loop of \<^verbatim>\<open>load_documents\<close>: \<^verbatim>\<open>int(row['id'])\<close> and
  the four fields, read in the order of the source. A column that the header does not
  have is a \<^verbatim>\<open>KeyError\<close>; a field that is \<^verbatim>\<open>None\<close> is stored as it is.\<close>

definition read_row :: "row \<Rightarrow> py_error + (int \<times> meta)" where
  "read_row r =
     (case dict_get r ''id'' of Inl e \<Rightarrow> Inl e | Inr id_field \<Rightarrow>
     (case py_int id_field of Inl e \<Rightarrow> Inl e | Inr doc_id \<Rightarrow>
     (case dict_get r ''title'' of Inl e \<Rightarrow> Inl e | Inr t \<Rightarrow>
     (case dict_get r ''filename'' of Inl e \<Rightarrow> Inl e | Inr f \<Rightarrow>
     (case dict_get r ''url'' of Inl e \<Rightarrow> Inl e | Inr u \<Rightarrow>
     (case dict_get r ''date'' of Inl e \<Rightarrow> Inl e | Inr d \<Rightarrow>
        Inr (doc_id,
             \<lparr>meta_title = t, meta_filename = f, meta_url = u, meta_date = d\<rparr>)))))))"

fun load_metadata :: "(int, meta) dict \<Rightarrow> row list \<Rightarrow> py_error + (int, meta) dict" where
  "load_metadata md [] = Inr md"
| "load_metadata md (r # rows) =
     (case read_row r of Inl e \<Rightarrow> Inl e
      | Inr (doc_id, m) \<Rightarrow> load_metadata (dict_set md doc_id m) rows)"

text \<open>The body of the second loop: \<^verbatim>\<open>os.path.join\<close> raises \<^verbatim>\<open>TypeError\<close> for the
  file name \<^verbatim>\<open>None\<close>; then the file is opened and read.\<close>

definition open_document :: "env \<Rightarrow> string \<Rightarrow> meta \<Rightarrow> py_error + string" where
  "open_document fs dir m =
     (case meta_filename m of
        None \<Rightarrow> Inl TypeError
      | Some f \<Rightarrow> text_files fs (path_join dir f))"

text \<open>The second loop: one file per entry of \<^verbatim>\<open>self.metadata\<close>.\<close>

fun load_contents ::
  "env \<Rightarrow> string \<Rightarrow> (int, string) dict \<Rightarrow> (int \<times> meta) list \<Rightarrow> py_error + (int, string) dict" where
  "load_contents fs dir docs [] = Inr docs"
| "load_contents fs dir docs ((doc_id, m) # rest) =
     (case open_document fs dir m of
        Inl e \<Rightarrow> Inl e
      | Inr content \<Rightarrow> load_contents fs dir (dict_set docs doc_id content) rest)"

definition load_documents :: "env \<Rightarrow> ir_system \<Rightarrow> py_error + ir_system" where
  "load_documents fs s =
     (case csv_tables fs (metadata_file s) of
        Inl e \<Rightarrow> Inl e
      | Inr rows \<Rightarrow>
          (case load_metadata (metadata s) rows of Inl e \<Rightarrow> Inl e | Inr md \<Rightarrow>
          (case load_contents fs (articles_dir s) (documents s) md of Inl e \<Rightarrow> Inl e
           | Inr docs \<Rightarrow> Inr (s\<lparr>metadata := md, documents := docs, N := length docs\<rparr>))))"

section \<open>Index builder\<close>

text \<open>\<^verbatim>\<open>word_count[word] += 1\<close> on a \<^verbatim>\<open>defaultdict(int)\<close>, for every word.\<close>

fun count_words :: "(string, nat) dict \<Rightarrow> string list \<Rightarrow> (string, nat) dict" where
  "count_words wc [] = wc"
| "count_words wc (w # ws) = count_words (dict_set wc w (dict_get_default 0 wc w + 1)) ws"

text \<open>\<^verbatim>\<open>tf = count / len(words) if words else 0\<close>.\<close>

definition term_frequency :: "nat \<Rightarrow> string list \<Rightarrow> real" where
  "term_frequency count ws = (if ws \<noteq> [] then double_quotient count (length ws) else 0)"

text \<open>\<^verbatim>\<open>self.inverted_index[word].append((doc_id, tf))\<close> on a
  \<^verbatim>\<open>defaultdict(list)\<close>, for every counted word of one document.\<close>

fun add_postings ::
  "(string, postings) dict \<Rightarrow> int \<Rightarrow> string list \<Rightarrow> (string \<times> nat) list \<Rightarrow> (string, postings) dict" where
  "add_postings idx doc_id ws [] = idx"
| "add_postings idx doc_id ws ((w, count) # rest) =
     add_postings
       (dict_set idx w (dict_get_default [] idx w @ [(doc_id, term_frequency count ws)]))
       doc_id ws rest"

fun index_documents ::
  "(string, postings) dict \<Rightarrow> (int \<times> string) list \<Rightarrow> (string, postings) dict" where
  "index_documents idx [] = idx"
| "index_documents idx ((doc_id, content) # docs) =
     (let ws = preprocess_text content
      in index_documents (add_postings idx doc_id ws (count_words [] ws)) docs)"

text \<open>\<^verbatim>\<open>self.idf_values[term] = math.log(self.N / df)\<close>: the division raises for
  \<open>df = 0\<close> and the logarithm raises for the argument 0.\<close>

fun compute_idf ::
  "nat \<Rightarrow> (string, real) dict \<Rightarrow> (string \<times> postings) list \<Rightarrow> py_error + (string, real) dict" where
  "compute_idf n idf [] = Inr idf"
| "compute_idf n idf ((t, ps) # rest) =
     (if length ps = 0 then Inl ZeroDivisionError
      else if n = 0 then Inl ValueError
      else compute_idf n (dict_set idf t (ln (real n / real (length ps)))) rest)"

definition build_inverted_index :: "ir_system \<Rightarrow> py_error + ir_system" where
  "build_inverted_index s =
     (let idx = index_documents (inverted_index s) (documents s)
      in (case compute_idf (N s) (idf_values s) idx of Inl e \<Rightarrow> Inl e
          | Inr idf \<Rightarrow> Inr (s\<lparr>inverted_index := idx, idf_values := idf\<rparr>)))"

section \<open>Vectorizer\<close>

fun scan_postings ::
  "(string, real) dict \<Rightarrow> int \<Rightarrow> string \<Rightarrow> (string, real) dict \<Rightarrow> postings \<Rightarrow> py_error + (string, real) dict" where
  "scan_postings idf doc_id t vec [] = Inr vec"
| "scan_postings idf doc_id t vec ((posting_doc_id, tf) # ps) =
     (if posting_doc_id = doc_id then
        (case dict_get idf t of Inl e \<Rightarrow> Inl e
         | Inr i \<Rightarrow> scan_postings idf doc_id t (dict_set vec t (tf * i)) ps)
      else scan_postings idf doc_id t vec ps)"

fun scan_index ::
  "(string, real) dict \<Rightarrow> int \<Rightarrow> (string, real) dict \<Rightarrow> (string \<times> postings) list \<Rightarrow> py_error + (string, real) dict" where
  "scan_index idf doc_id vec [] = Inr vec"
| "scan_index idf doc_id vec ((t, ps) # rest) =
     (case scan_postings idf doc_id t vec ps of Inl e \<Rightarrow> Inl e
      | Inr vec' \<Rightarrow> scan_index idf doc_id vec' rest)"

text \<open>\<^verbatim>\<open>math.sqrt(sum(val ** 2 for val in vec.values()))\<close>.\<close>

definition vector_length :: "(string, real) dict \<Rightarrow> real" where
  "vector_length vec = sqrt (sum_list (map (\<lambda>(t, val). val ^ 2) vec))"

fun vectorize ::
  "(string, postings) dict \<Rightarrow> (string, real) dict \<Rightarrow>
   (int, (string, real) dict) dict \<times> (int, real) dict \<Rightarrow> (int \<times> string) list \<Rightarrow>
   py_error + (int, (string, real) dict) dict \<times> (int, real) dict" where
  "vectorize idx idf (dv, dl) [] = Inr (dv, dl)"
| "vectorize idx idf (dv, dl) ((doc_id, content) # docs) =
     (case scan_index idf doc_id [] idx of Inl e \<Rightarrow> Inl e
      | Inr vec \<Rightarrow>
          vectorize idx idf (dict_set dv doc_id vec, dict_set dl doc_id (vector_length vec)) docs)"

definition compute_document_vectors :: "ir_system \<Rightarrow> py_error + ir_system" where
  "compute_document_vectors s =
     (case vectorize (inverted_index s) (idf_values s) (doc_vectors s, doc_lengths s) (documents s) of
        Inl e \<Rightarrow> Inl e
      | Inr (dv, dl) \<Rightarrow> Inr (s\<lparr>doc_vectors := dv, doc_lengths := dl\<rparr>))"

section \<open>Index store\<close>

definition pickle_of :: "ir_system \<Rightarrow> index_blob" where
  "pickle_of s =
     \<lparr>blob_inverted_index = inverted_index s, blob_idf_values = idf_values s,
      blob_doc_vectors = doc_vectors s, blob_doc_lengths = doc_lengths s, blob_N = N s\<rparr>"

definition save_index :: "string \<Rightarrow> ir_system \<Rightarrow> env \<Rightarrow> env" where
  "save_index index_file s fs = fs\<lparr>pickle_files := (pickle_files fs)(index_file \<mapsto> pickle_of s)\<rparr>"

definition load_index :: "string \<Rightarrow> env \<Rightarrow> ir_system \<Rightarrow> py_error + ir_system" where
  "load_index index_file fs s =
     (case pickle_files fs index_file of
        None \<Rightarrow> Inl FileNotFoundError
      | Some data \<Rightarrow>
          Inr (s\<lparr>inverted_index := blob_inverted_index data,
                 idf_values := blob_idf_values data,
                 doc_vectors := blob_doc_vectors data,
                 doc_lengths := blob_doc_lengths data,
                 N := blob_N data\<rparr>))"

text \<open>\<^verbatim>\<open>build_index\<close>: the three passes, then \<^verbatim>\<open>save_index()\<close> with its default
  file name.\<close>

definition build_index :: "env \<Rightarrow> ir_system \<Rightarrow> py_error + (ir_system \<times> env)" where
  "build_index fs s =
     (case load_documents fs s of Inl e \<Rightarrow> Inl e | Inr s1 \<Rightarrow>
     (case build_inverted_index s1 of Inl e \<Rightarrow> Inl e | Inr s2 \<Rightarrow>
     (case compute_document_vectors s2 of Inl e \<Rightarrow> Inl e | Inr s3 \<Rightarrow>
        Inr (s3, save_index ''index.pkl'' s3 fs))))"

section \<open>Query engine\<close>

record result =
  doc_id :: int
  score :: real
  title :: "string option"
  summary :: string
  url :: "string option"
  date :: "string option"

fun build_query_vector ::
  "(string, real) dict \<Rightarrow> nat \<Rightarrow> (string, real) dict \<Rightarrow> (string \<times> nat) list \<Rightarrow> (string, real) dict" where
  "build_query_vector idf n qv [] = qv"
| "build_query_vector idf n qv ((t, count) # rest) =
     (case map_of idf t of
        None \<Rightarrow> build_query_vector idf n qv rest
      | Some i \<Rightarrow> build_query_vector idf n (dict_set qv t (double_quotient count n * i)) rest)"

text \<open>The inner loop of the scoring: \<^verbatim>\<open>self.doc_vectors[doc_id]\<close> is looked up for
  every query term.\<close>

fun dot_score ::
  "(int, (string, real) dict) dict \<Rightarrow> int \<Rightarrow> real \<Rightarrow> (string \<times> real) list \<Rightarrow> py_error + real" where
  "dot_score dv d sc [] = Inr sc"
| "dot_score dv d sc ((t, query_weight) # rest) =
     (case dict_get dv d of Inl e \<Rightarrow> Inl e
      | Inr vec \<Rightarrow>
          (case map_of vec t of
             None \<Rightarrow> dot_score dv d sc rest
           | Some w \<Rightarrow> dot_score dv d (sc + query_weight * w) rest))"

text \<open>The score of one document, as the body of the loop over \<^verbatim>\<open>self.documents\<close>
  computes it before the test \<^verbatim>\<open>score > 0\<close>.\<close>

definition document_score ::
  "ir_system \<Rightarrow> (string, real) dict \<Rightarrow> real \<Rightarrow> int \<Rightarrow> py_error + real" where
  "document_score s qv query_length d =
     (case dot_score (doc_vectors s) d 0 qv of Inl e \<Rightarrow> Inl e | Inr sc \<Rightarrow>
     (case dict_get (doc_lengths s) d of Inl e \<Rightarrow> Inl e | Inr len \<Rightarrow>
        Inr (if len > 0 \<and> query_length > 0 then sc / (len * query_length) else sc)))"

fun score_documents ::
  "ir_system \<Rightarrow> (string, real) dict \<Rightarrow> real \<Rightarrow> (int, real) dict \<Rightarrow> (int \<times> string) list \<Rightarrow>
   py_error + (int, real) dict" where
  "score_documents s qv query_length scores [] = Inr scores"
| "score_documents s qv query_length scores ((d, content) # docs) =
     (case document_score s qv query_length d of Inl e \<Rightarrow> Inl e
      | Inr sc \<Rightarrow>
          score_documents s qv query_length
            (if sc > 0 then dict_set scores d sc else scores) docs)"

text \<open>The snippet: the inner loop with its \<^verbatim>\<open>break\<close>, the loop over the sentences,
  and the join of the first three.\<close>

fun any_term_in :: "string list \<Rightarrow> string \<Rightarrow> bool" where
  "any_term_in [] sentence_lower = False"
| "any_term_in (t # ts) sentence_lower =
     (if contains t sentence_lower then True else any_term_in ts sentence_lower)"

fun matching_sentences :: "string list \<Rightarrow> string list \<Rightarrow> string list \<Rightarrow> string list" where
  "matching_sentences query_terms acc [] = acc"
| "matching_sentences query_terms acc (sentence # rest) =
     (if any_term_in query_terms (lower sentence)
      then matching_sentences query_terms (acc @ [strip sentence]) rest
      else matching_sentences query_terms acc rest)"

definition make_summary :: "string list \<Rightarrow> string \<Rightarrow> string" where
  "make_summary query_terms content =
     (let ms = matching_sentences query_terms [] (re_split content)
      in if ms \<noteq> [] then join ''. '' (take 3 ms) @ ''.'' else [])"

fun make_results :: "ir_system \<Rightarrow> string list \<Rightarrow> (int \<times> real) list \<Rightarrow> py_error + result list" where
  "make_results s query_terms [] = Inr []"
| "make_results s query_terms ((d, sc) # rest) =
     (case dict_get (documents s) d of Inl e \<Rightarrow> Inl e | Inr content \<Rightarrow>
     (case dict_get (metadata s) d of Inl e \<Rightarrow> Inl e | Inr m \<Rightarrow>
     (case make_results s query_terms rest of Inl e \<Rightarrow> Inl e | Inr rs \<Rightarrow>
        Inr (\<lparr>doc_id = d, score = sc, title = meta_title m,
              summary = make_summary query_terms content,
              url = meta_url m, date = meta_date m\<rparr> # rs))))"

definition query_vector_of :: "ir_system \<Rightarrow> string list \<Rightarrow> (string, real) dict" where
  "query_vector_of s query_terms =
     build_query_vector (idf_values s) (length query_terms) [] (count_words [] query_terms)"

definition search :: "ir_system \<Rightarrow> string \<Rightarrow> int \<Rightarrow> py_error + result list" where
  "search s query top_k =
     (let query_terms = preprocess_text query
      in if query_terms = [] then Inr []
         else
           (let query_vector = query_vector_of s query_terms
            in if query_vector = [] then Inr []
               else
                 (case score_documents s query_vector (vector_length query_vector) []
                         (documents s) of
                    Inl e \<Rightarrow> Inl e
                  | Inr scores \<Rightarrow>
                      make_results s query_terms (slice_to top_k (sorted_reverse scores)))))"

section \<open>Statements of the specification\<close>

text \<open>The snippet in the words of the specification: the sentences that contain a query
  term, the first three of them, joined with a full stop and a space.\<close>

definition spec_snippet :: "string list \<Rightarrow> string \<Rightarrow> string" where
  "spec_snippet query_terms content =
     join ''. ''
       (take 3 (filter (\<lambda>sentence. list_ex (\<lambda>t. contains t sentence) query_terms)
                  (re_split content)))"

text \<open>The snippet as the loops of \<^verbatim>\<open>search\<close> produce it: a sentence matches when its
  lower-case form has a query term as a substring; the matching sentences are stripped
  of surrounding white space, and a full stop follows the join.\<close>

definition snippet_of :: "string list \<Rightarrow> string \<Rightarrow> string" where
  "snippet_of query_terms content =
     (let ms = map strip
                 (filter (\<lambda>sentence. list_ex (\<lambda>t. contains t (lower sentence)) query_terms)
                    (re_split content))
      in if ms = [] then [] else join ''. '' (take 3 ms) @ ''.'')"

section \<open>Example corpora\<close>

text \<open>A file system that holds the listed files and nothing else.\<close>

definition files_of :: "(string \<times> 'a) list \<Rightarrow> string \<Rightarrow> py_error + 'a" where
  "files_of table path =
     (case map_of table path of None \<Rightarrow> Inl FileNotFoundError | Some x \<Rightarrow> Inr x)"

definition example_row :: "string \<Rightarrow> string \<Rightarrow> string \<Rightarrow> row" where
  "example_row i t f =
     [(''id'', Some i), (''title'', Some t), (''url'', Some (''http://x/'' @ f)),
      (''date'', Some ''2024''), (''filename'', Some f)]"

text \<open>Three documents, listed in the order 2, 1, 3; two of them have the same text.\<close>

definition example_env :: env where
  "example_env =
     \<lparr>csv_tables = files_of [(''metadata.csv'',
        [example_row ''2'' ''Second'' ''b.txt'', example_row ''1'' ''First'' ''a.txt'',
         example_row ''3'' ''Third'' ''c.txt''])],
      text_files = files_of [(''articles/a.txt'', ''alpha''), (''articles/b.txt'', ''alpha''),
                             (''articles/c.txt'', ''beta'')],
      pickle_files = Map.empty\<rparr>"

definition example_meta :: "string \<Rightarrow> string \<Rightarrow> meta" where
  "example_meta t f =
     \<lparr>meta_title = Some t, meta_filename = Some f, meta_url = Some (''http://x/'' @ f),
      meta_date = Some ''2024''\<rparr>"

definition example_engine :: ir_system where
  "example_engine =
     \<lparr>articles_dir = ''articles'', metadata_file = ''metadata.csv'',
      documents = [(2, ''alpha''), (1, ''alpha''), (3, ''beta'')],
      metadata = [(2, example_meta ''Second'' ''b.txt''), (1, example_meta ''First'' ''a.txt''),
                  (3, example_meta ''Third'' ''c.txt'')],
      inverted_index = [(''alpha'', [(2, 1), (1, 1)]), (''beta'', [(3, 1)])],
      doc_vectors = [(2, [(''alpha'', ln (3 / 2))]), (1, [(''alpha'', ln (3 / 2))]),
                     (3, [(''beta'', ln 3)])],
      doc_lengths = [(2, ln (3 / 2)), (1, ln (3 / 2)), (3, ln 3)],
      idf_values = [(''alpha'', ln (3 / 2)), (''beta'', ln 3)],
      N = 3\<rparr>"

text \<open>A metadata table whose first row has an id that is no number, and one whose only
  row names a file that does not exist.\<close>

definition bad_id_env :: env where
  "bad_id_env =
     \<lparr>csv_tables = files_of [(''metadata.csv'',
        [example_row ''x'' ''Broken'' ''b.txt'', example_row ''1'' ''First'' ''a.txt''])],
      text_files = files_of [(''articles/a.txt'', ''alpha''), (''articles/b.txt'', ''alpha'')],
      pickle_files = Map.empty\<rparr>"

definition missing_file_env :: env where
  "missing_file_env =
     \<lparr>csv_tables = files_of [(''metadata.csv'', [example_row ''1'' ''First'' ''a.txt''])],
      text_files = files_of [],
      pickle_files = Map.empty\<rparr>"

definition empty_table_env :: env where
  "empty_table_env =
     \<lparr>csv_tables = files_of [(''metadata.csv'', [])], text_files = files_of [],
      pickle_files = Map.empty\<rparr>"

definition no_table_env :: env where
  "no_table_env =
     \<lparr>csv_tables = files_of [], text_files = files_of [], pickle_files = Map.empty\<rparr>"

text \<open>The engine after \<^verbatim>\<open>load_documents\<close> alone on the three documents.\<close>

definition example_loaded :: ir_system where
  "example_loaded =
     \<lparr>articles_dir = ''articles'', metadata_file = ''metadata.csv'',
      documents = [(2, ''alpha''), (1, ''alpha''), (3, ''beta'')],
      metadata = [(2, example_meta ''Second'' ''b.txt''), (1, example_meta ''First'' ''a.txt''),
                  (3, example_meta ''Third'' ''c.txt'')],
      inverted_index = [], doc_vectors = [], doc_lengths = [], idf_values = [], N = 3\<rparr>"

section \<open>Notions used in the statements\<close>

text \<open>The posting that one document contributes to the list of a term: none when the
  term is not among its filtered tokens, otherwise the term frequency for the count of
  the term.\<close>

definition posting_of :: "string \<Rightarrow> int \<times> string \<Rightarrow> postings" where
  "posting_of t doc =
     (let ws = preprocess_text (snd doc)
      in if t \<in> set ws then [(fst doc, term_frequency (count_list ws t) ws)] else [])"

definition postings_for :: "string \<Rightarrow> (int \<times> string) list \<Rightarrow> postings" where
  "postings_for t docs = concat (map (posting_of t) docs)"

text \<open>The postings of one document, collected from all posting lists in the order of
  the index, each with its term.\<close>

definition postings_of_document :: "(string, postings) dict \<Rightarrow> int \<Rightarrow> (string \<times> real) list" where
  "postings_of_document idx d =
     concat (map (\<lambda>(t, ps). map (\<lambda>p. (t, snd p)) (filter (\<lambda>p. fst p = d) ps)) idx)"

text \<open>The sum that the inner loop of the scoring accumulates, and the sum under the
  square root of a vector length.\<close>

definition dot_product :: "(string, real) dict \<Rightarrow> (string, real) dict \<Rightarrow> real" where
  "dot_product qv vec =
     sum_list (map (\<lambda>(t, qw). case map_of vec t of None \<Rightarrow> 0 | Some w \<Rightarrow> qw * w) qv)"

definition sum_squares :: "(string, real) dict \<Rightarrow> real" where
  "sum_squares vec = sum_list (map (\<lambda>(t, val). val ^ 2) vec)"

text \<open>Two documents with the same single term, so that the term occurs in every
  document, and the engine that \<^verbatim>\<open>build_index\<close> produces for them.\<close>

definition shared_term_env :: env where
  "shared_term_env =
     \<lparr>csv_tables = files_of [(''metadata.csv'',
        [example_row ''1'' ''First'' ''a.txt'', example_row ''2'' ''Second'' ''b.txt''])],
      text_files = files_of [(''articles/a.txt'', ''alpha''), (''articles/b.txt'', ''alpha'')],
      pickle_files = Map.empty\<rparr>"

definition shared_term_engine :: ir_system where
  "shared_term_engine =
     \<lparr>articles_dir = ''articles'', metadata_file = ''metadata.csv'',
      documents = [(1, ''alpha''), (2, ''alpha'')],
      metadata = [(1, example_meta ''First'' ''a.txt''), (2, example_meta ''Second'' ''b.txt'')],
      inverted_index = [(''alpha'', [(1, 1), (2, 1)])],
      doc_vectors = [(1, [(''alpha'', 0)]), (2, [(''alpha'', 0)])],
      doc_lengths = [(1, 0), (2, 0)],
      idf_values = [(''alpha'', 0)],
      N = 2\<rparr>"

text \<open>The example corpus after document 2 and its metadata row were removed, and the
  engine that \<^verbatim>\<open>build_index\<close> produces for it.\<close>

definition removed_env :: env where
  "removed_env =
     \<lparr>csv_tables = files_of [(''metadata.csv'',
        [example_row ''1'' ''First'' ''a.txt'', example_row ''3'' ''Third'' ''c.txt''])],
      text_files = files_of [(''articles/a.txt'', ''alpha''), (''articles/c.txt'', ''beta'')],
      pickle_files = Map.empty\<rparr>"

definition removed_engine :: ir_system where
  "removed_engine =
     \<lparr>articles_dir = ''articles'', metadata_file = ''metadata.csv'',
      documents = [(1, ''alpha''), (3, ''beta'')],
      metadata = [(1, example_meta ''First'' ''a.txt''), (3, example_meta ''Third'' ''c.txt'')],
      inverted_index = [(''alpha'', [(1, 1)]), (''beta'', [(3, 1)])],
      doc_vectors = [(1, [(''alpha'', ln 2)]), (3, [(''beta'', ln 2)])],
      doc_lengths = [(1, ln 2), (3, ln 2)],
      idf_values = [(''alpha'', ln 2), (''beta'', ln 2)],
      N = 2\<rparr>"

text \<open>The engines that a second \<^verbatim>\<open>build_index\<close> on the built engines gives.\<close>

definition example_rebuilt :: ir_system where
  "example_rebuilt =
     \<lparr>articles_dir = ''articles'', metadata_file = ''metadata.csv'',
      documents = [(2, ''alpha''), (1, ''alpha''), (3, ''beta'')],
      metadata = [(2, example_meta ''Second'' ''b.txt''), (1, example_meta ''First'' ''a.txt''),
                  (3, example_meta ''Third'' ''c.txt'')],
      inverted_index = [(''alpha'', [(2, 1), (1, 1), (2, 1), (1, 1)]),
                        (''beta'', [(3, 1), (3, 1)])],
      doc_vectors = [(2, [(''alpha'', ln (3 / 4))]), (1, [(''alpha'', ln (3 / 4))]),
                     (3, [(''beta'', ln (3 / 2))])],
      doc_lengths = [(2, - ln (3 / 4)), (1, - ln (3 / 4)), (3, ln (3 / 2))],
      idf_values = [(''alpha'', ln (3 / 4)), (''beta'', ln (3 / 2))],
      N = 3\<rparr>"

definition shared_term_rebuilt :: ir_system where
  "shared_term_rebuilt =
     \<lparr>articles_dir = ''articles'', metadata_file = ''metadata.csv'',
      documents = [(1, ''alpha''), (2, ''alpha'')],
      metadata = [(1, example_meta ''First'' ''a.txt''), (2, example_meta ''Second'' ''b.txt'')],
      inverted_index = [(''alpha'', [(1, 1), (2, 1), (1, 1), (2, 1)])],
      doc_vectors = [(1, [(''alpha'', ln (1 / 2))]), (2, [(''alpha'', ln (1 / 2))])],
      doc_lengths = [(1, - ln (1 / 2)), (2, - ln (1 / 2))],
      idf_values = [(''alpha'', ln (1 / 2))],
      N = 2\<rparr>"

text \<open>One document of six different words, and the engine built for it. Each word has
  the count 1 of 6 tokens, and the double nearest to one sixth is
  \<open>6004799503160661 / 2\<^sup>5\<^sup>5\<close>.\<close>

definition six_words_env :: env where
  "six_words_env =
     \<lparr>csv_tables = files_of [(''metadata.csv'', [example_row ''1'' ''First'' ''a.txt''])],
      text_files = files_of [(''articles/a.txt'', ''alpha beta gamma delta epsilon zeta'')],
      pickle_files = Map.empty\<rparr>"

definition one_sixth :: real where
  "one_sixth = 6004799503160661 / 36028797018963968"

definition six_words_engine :: ir_system where
  "six_words_engine =
     \<lparr>articles_dir = ''articles'', metadata_file = ''metadata.csv'',
      documents = [(1, ''alpha beta gamma delta epsilon zeta'')],
      metadata = [(1, example_meta ''First'' ''a.txt'')],
      inverted_index =
        [(''alpha'', [(1, one_sixth)]), (''beta'', [(1, one_sixth)]),
         (''gamma'', [(1, one_sixth)]), (''delta'', [(1, one_sixth)]),
         (''epsilon'', [(1, one_sixth)]), (''zeta'', [(1, one_sixth)])],
      doc_vectors =
        [(1, [(''alpha'', 0), (''beta'', 0), (''gamma'', 0), (''delta'', 0),
              (''epsilon'', 0), (''zeta'', 0)])],
      doc_lengths = [(1, 0)],
      idf_values =
        [(''alpha'', 0), (''beta'', 0), (''gamma'', 0), (''delta'', 0), (''epsilon'', 0),
         (''zeta'', 0)],
      N = 1\<rparr>"

text \<open>Rows as \<^verbatim>\<open>csv.DictReader\<close> yields them for short lines: under the header
  \<^verbatim>\<open>id,title,filename,url,date\<close> the line \<^verbatim>\<open>1,First\<close>; under the header
  \<^verbatim>\<open>filename,id,title,url,date\<close> the line \<^verbatim>\<open>a.txt\<close>; and under the first header the
  line \<^verbatim>\<open>1,First,a.txt\<close>.\<close>

definition row_without_filename :: row where
  "row_without_filename =
     [(''id'', Some ''1''), (''title'', Some ''First''), (''filename'', None), (''url'', None),
      (''date'', None)]"

definition row_without_id :: row where
  "row_without_id =
     [(''filename'', Some ''a.txt''), (''id'', None), (''title'', None), (''url'', None),
      (''date'', None)]"

definition row_without_url :: row where
  "row_without_url =
     [(''id'', Some ''1''), (''title'', Some ''First''), (''filename'', Some ''a.txt''),
      (''url'', None), (''date'', None)]"

definition short_rows_env :: "row \<Rightarrow> env" where
  "short_rows_env r =
     \<lparr>csv_tables = files_of [(''metadata.csv'', [r])],
      text_files = files_of [(''articles/a.txt'', ''alpha'')],
      pickle_files = Map.empty\<rparr>"

text \<open>The example table with a second row for document 2 at its end.\<close>

definition repeated_id_env :: env where
  "repeated_id_env =
     \<lparr>csv_tables = files_of [(''metadata.csv'',
        [example_row ''2'' ''Second'' ''b.txt'', example_row ''1'' ''First'' ''a.txt'',
         example_row ''2'' ''Again'' ''c.txt''])],
      text_files = files_of [(''articles/a.txt'', ''alpha''), (''articles/b.txt'', ''alpha''),
                             (''articles/c.txt'', ''beta'')],
      pickle_files = Map.empty\<rparr>"

text \<open>The entries that the rows of a metadata table give, row by row: the id and the
  metadata of every row that can be read.\<close>

definition row_entries :: "row list \<Rightarrow> (int \<times> meta) list" where
  "row_entries rows =
     concat (map (\<lambda>r. case read_row r of Inl e \<Rightarrow> [] | Inr entry \<Rightarrow> [entry]) rows)"

section \<open>Facts about dicts\<close>

lemma map_of_dict_set: "map_of (dict_set d k v) = (map_of d)(k \<mapsto> v)"
  by (induction d) (auto simp: fun_eq_iff)

lemma keys_dict_set:
  "map fst (dict_set d k v) = (if k \<in> fst ` set d then map fst d else map fst d @ [k])"
proof (induction d)
  case Nil
  show ?case by simp
next
  case (Cons p d)
  obtain k' v' where p: "p = (k', v')" by (cases p)
  show ?case
  proof (cases "k' = k")
    case True
    then show ?thesis by (simp add: p)
  next
    case False
    then show ?thesis using Cons by (auto simp: p)
  qed
qed

lemma distinct_dict_set: "distinct (map fst d) \<Longrightarrow> distinct (map fst (dict_set d k v))"
  by (simp add: keys_dict_set)

lemma dict_set_not_Nil: "dict_set d k v \<noteq> []"
  by (cases d) (auto split: if_splits)

section \<open>The quotient of two integers\<close>

lemma round_half_even_error: "\<bar>real_of_int (round_half_even x) - x\<bar> \<le> 1 / 2"
  unfolding round_half_even_def Let_def by (auto split: if_splits)

lemma round_half_even_nonneg: "0 \<le> x \<Longrightarrow> 0 \<le> round_half_even x"
  unfolding round_half_even_def Let_def by (auto split: if_splits)

lemma round_half_even_le: "x \<le> real_of_int n \<Longrightarrow> round_half_even x \<le> n"
proof -
  assume a: "x \<le> real_of_int n"
  then have f: "\<lfloor>x\<rfloor> \<le> n" by (simp add: floor_le_iff)
  show ?thesis
  proof (cases "\<lfloor>x\<rfloor> = n")
    case True
    then have "x - of_int \<lfloor>x\<rfloor> \<le> 0" using a by simp
    then show ?thesis
      unfolding round_half_even_def Let_def using True by auto
  next
    case False
    with f have "\<lfloor>x\<rfloor> + 1 \<le> n" by simp
    then show ?thesis
      unfolding round_half_even_def Let_def using f by auto
  qed
qed

lemma round_half_even_of_int: "round_half_even (real_of_int n) = n"
  by (simp add: round_half_even_def)

lemma binade_le:
  assumes "p \<le> q"
  shows "binade p q \<le> 0"
proof -
  have "floorlog 2 p \<le> floorlog 2 q"
    using assms by (rule floorlog_mono)
  then have "int (floorlog 2 p) - int (floorlog 2 q) \<le> 0" by simp
  then show ?thesis
    unfolding binade_def Let_def by (auto split: if_splits)
qed

lemma binade_less:
  assumes "p < q"
  shows "binade p q \<le> - 1"
proof -
  have "floorlog 2 p \<le> floorlog 2 q"
    using assms by (intro floorlog_mono) simp
  then have d: "int (floorlog 2 p) - int (floorlog 2 q) \<le> 0" by simp
  show ?thesis
  proof (cases "int (floorlog 2 p) - int (floorlog 2 q) = 0")
    case True
    then show ?thesis
      unfolding binade_def Let_def using assms by simp
  next
    case False
    with d have "int (floorlog 2 p) - int (floorlog 2 q) \<le> - 1" by linarith
    then show ?thesis
      unfolding binade_def Let_def by (auto split: if_splits)
  qed
qed

text \<open>The exponent is the one of the binade of the quotient.\<close>

lemma quotient_between:
  fixes p q a b :: nat
  assumes "2 ^ a \<le> p" "p < 2 ^ Suc a" "2 ^ b \<le> q" "q < 2 ^ Suc b"
  shows "(2::real) powi (int a - int b - 1) \<le> real p / real q"
    and "real p / real q < (2::real) powi (int a - int b + 1)"
proof -
  have rp: "(2::real) ^ a \<le> real p" "real p < 2 ^ Suc a"
    using assms(1,2) by (metis of_nat_le_iff of_nat_numeral of_nat_power,
        metis of_nat_less_iff of_nat_numeral of_nat_power)
  have rq: "(2::real) ^ b \<le> real q" "real q < 2 ^ Suc b"
    using assms(3,4) by (metis of_nat_le_iff of_nat_numeral of_nat_power,
        metis of_nat_less_iff of_nat_numeral of_nat_power)
  have qpos: "0 < real q"
    using rq(1) by (meson less_le_trans zero_less_numeral zero_less_power)
  have e1: "(2::real) powi (int a - int b - 1) = 2 ^ a / 2 ^ Suc b"
  proof -
    have "int a - int b - 1 = int a - int (Suc b)" by simp
    then have "(2::real) powi (int a - int b - 1) = 2 powi (int a - int (Suc b))"
      by (rule arg_cong)
    also have "\<dots> = 2 powi int a / 2 powi int (Suc b)"
      by (rule power_int_diff) simp
    finally show ?thesis by (simp only: power_int_of_nat)
  qed
  have e2: "(2::real) powi (int a - int b + 1) = 2 ^ Suc a / 2 ^ b"
  proof -
    have "int a - int b + 1 = int (Suc a) - int b" by simp
    then have "(2::real) powi (int a - int b + 1) = 2 powi (int (Suc a) - int b)"
      by (rule arg_cong)
    also have "\<dots> = 2 powi int (Suc a) / 2 powi int b"
      by (rule power_int_diff) simp
    finally show ?thesis by (simp only: power_int_of_nat)
  qed
  have "(2::real) ^ a / 2 ^ Suc b \<le> real p / 2 ^ Suc b"
    using rp(1) by (rule divide_right_mono) simp
  also have "\<dots> \<le> real p / real q"
    using rq(2) qpos by (intro divide_left_mono) simp_all
  finally show "(2::real) powi (int a - int b - 1) \<le> real p / real q"
    by (simp only: e1)
  have "real p / real q < 2 ^ Suc a / real q"
    using rp(2) qpos by (rule divide_strict_right_mono)
  also have "\<dots> \<le> 2 ^ Suc a / 2 ^ b"
    using rq(1) qpos by (intro divide_left_mono) simp_all
  finally show "real p / real q < (2::real) powi (int a - int b + 1)"
    by (simp only: e2)
qed

lemma floorlog_Suc_bounds:
  assumes "0 < p"
  shows "\<exists>a. floorlog 2 p = Suc a \<and> 2 ^ a \<le> p \<and> p < 2 ^ Suc a"
proof -
  from floorlog_bounds [of p 2] assms
  have b: "2 ^ (floorlog 2 p - 1) \<le> p" "p < 2 ^ floorlog 2 p" by auto
  have "floorlog 2 p \<noteq> 0"
  proof
    assume "floorlog 2 p = 0"
    with b(2) assms show False by simp
  qed
  then obtain a where a: "floorlog 2 p = Suc a" by (cases "floorlog 2 p") auto
  with b show ?thesis by simp
qed

lemma binade_bounds:
  assumes "0 < p" and "0 < q"
  shows "2 powi binade p q \<le> real p / real q" and "real p / real q < 2 powi (binade p q + 1)"
proof -
  from floorlog_Suc_bounds [OF assms(1)] obtain a where
    a: "floorlog 2 p = Suc a" "2 ^ a \<le> p" "p < 2 ^ Suc a" by blast
  from floorlog_Suc_bounds [OF assms(2)] obtain b where
    b: "floorlog 2 q = Suc b" "2 ^ b \<le> q" "q < 2 ^ Suc b" by blast
  let ?d = "int a - int b"
  have d: "int (floorlog 2 p) - int (floorlog 2 q) = ?d"
    by (simp add: a(1) b(1))
  note btw = quotient_between [OF a(2,3) b(2,3)]
  have rq: "0 < real q" using assms(2) by simp
  have bin: "binade p q = (if real p < real q * 2 powi ?d then ?d - 1 else ?d)"
    unfolding binade_def Let_def d ..
  show "2 powi binade p q \<le> real p / real q"
  proof (cases "real p < real q * 2 powi ?d")
    case True
    then have "binade p q = ?d - 1" by (simp only: bin if_True)
    then show ?thesis using btw(1) by simp
  next
    case False
    then have "binade p q = ?d" by (simp only: bin if_False)
    moreover from False have "2 powi ?d * real q \<le> real p"
      by (simp add: mult.commute)
    then have "2 powi ?d \<le> real p / real q"
      using rq by (simp only: pos_le_divide_eq)
    ultimately show ?thesis by simp
  qed
  show "real p / real q < 2 powi (binade p q + 1)"
  proof (cases "real p < real q * 2 powi ?d")
    case True
    then have "binade p q = ?d - 1" by (simp only: bin if_True)
    moreover from True have "real p < 2 powi ?d * real q"
      by (simp add: mult.commute)
    then have "real p / real q < 2 powi ?d"
      using rq by (simp only: pos_divide_less_eq)
    ultimately show ?thesis by simp
  next
    case False
    then have "binade p q = ?d" by (simp only: bin if_False)
    then show ?thesis using btw(2) by simp
  qed
qed

lemma double_quotient_self: "0 < n \<Longrightarrow> double_quotient n n = 1"
  by (simp add: double_quotient_def binade_def round_half_even_def Let_def)

lemma double_quotient_nonneg: "0 \<le> double_quotient p q"
proof (cases "p = 0")
  case True
  then show ?thesis by (simp add: double_quotient_def)
next
  case False
  let ?e = "max (binade p q - 52) (- 1074)"
  have "0 \<le> real p / real q * 2 powi (- ?e)" by simp
  then have "0 \<le> round_half_even (real p / real q * 2 powi (- ?e))"
    by (rule round_half_even_nonneg)
  then show ?thesis
    using False by (simp add: double_quotient_def Let_def)
qed

lemma double_quotient_le_one:
  assumes "p \<le> q" and "0 < q"
  shows "double_quotient p q \<le> 1"
proof (cases "p = 0")
  case True
  then show ?thesis by (simp add: double_quotient_def)
next
  case False
  let ?e = "max (binade p q - 52) (- 1074)"
  have e: "?e \<le> 0" using binade_le [OF assms(1)] by simp
  then obtain k where k: "- ?e = int k" by (metis nonneg_int_cases neg_0_le_iff_le)
  have pw: "(2::real) powi (- ?e) = real_of_int (2 ^ k)"
    by (simp only: k power_int_of_nat) simp
  have "real p / real q \<le> 1" using assms by simp
  then have "real p / real q * 2 ^ k \<le> 1 * 2 ^ k"
    by (intro mult_right_mono) simp_all
  then have "real p / real q * 2 powi (- ?e) \<le> real_of_int (2 ^ k)"
    unfolding pw by simp
  then have "round_half_even (real p / real q * 2 powi (- ?e)) \<le> 2 ^ k"
    by (rule round_half_even_le)
  then have "real_of_int (round_half_even (real p / real q * 2 powi (- ?e))) \<le> 2 powi (- ?e)"
    unfolding pw by (simp only: of_int_le_iff)
  then have "real_of_int (round_half_even (real p / real q * 2 powi (- ?e))) * 2 powi ?e \<le> 1"
    by (simp add: power_int_minus field_simps)
  then show ?thesis
    using False by (simp add: double_quotient_def Let_def)
qed

lemma double_quotient_error:
  assumes "p \<le> q" and "0 < q"
  shows "\<bar>double_quotient p q - real p / real q\<bar> \<le> 1 / 2 ^ 54"
proof -
  consider "p = 0" | "p = q" | "p \<noteq> 0" "p < q" using assms by linarith
  then show ?thesis
  proof cases
    case 1
    then show ?thesis by (simp add: double_quotient_def)
  next
    case 2
    then show ?thesis using assms(2) by (simp add: double_quotient_self)
  next
    case 3
    let ?e = "max (binade p q - 52) (- 1074)"
    let ?y = "real p / real q * 2 powi (- ?e)"
    have e: "?e \<le> - 53" using binade_less [OF 3(2)] by simp
    have pos: "0 < (2::real) powi ?e" by simp
    have "double_quotient p q - real p / real q
            = (real_of_int (round_half_even ?y) - ?y) * 2 powi ?e"
      using 3(1) by (simp add: double_quotient_def Let_def power_int_minus field_simps)
    then have "\<bar>double_quotient p q - real p / real q\<bar>
            = \<bar>real_of_int (round_half_even ?y) - ?y\<bar> * 2 powi ?e"
      using pos by (simp add: abs_mult)
    also have "\<dots> \<le> 1 / 2 * 2 powi ?e"
      using round_half_even_error [of ?y] pos by (intro mult_right_mono) simp_all
    also have "\<dots> \<le> 1 / 2 * 2 powi (- 53)"
      using e by (intro mult_left_mono power_int_increasing) simp_all
    also have "\<dots> = 1 / 2 ^ 54"
      by (simp add: power_int_minus)
    finally show ?thesis .
  qed
qed

section \<open>Evaluation of the examples\<close>

lemmas tokenizer_defs = preprocess_text_def findall_az_def lower_def is_az_def stopwords_def

lemmas loader_defs = load_documents_def read_row_def dict_get_def py_int_def
  is_int_space_def is_digit_def path_join_def example_row_def files_of_def open_document_def

lemmas builder_defs = build_inverted_index_def dict_get_default_def term_frequency_def
  compute_document_vectors_def vector_length_def double_quotient_self

lemmas search_defs = search_def query_vector_of_def document_score_def sorted_reverse_def
  slice_to_def make_summary_def is_terminator_def double_quotient_self

lemma example_build:
  "build_index example_env (init ''articles'' ''metadata.csv'') =
     Inr (example_engine, save_index ''index.pkl'' example_engine example_env)"
  by (simp add: build_index_def example_env_def init_def example_engine_def example_meta_def
      loader_defs tokenizer_defs builder_defs numeral_3_eq_3)

lemma example_rebuild:
  "build_index example_env example_engine =
     Inr (example_rebuilt, save_index ''index.pkl'' example_rebuilt example_env)"
  by (simp add: build_index_def example_env_def example_engine_def example_meta_def
      example_rebuilt_def loader_defs tokenizer_defs builder_defs numeral_3_eq_3)

lemma shared_term_rebuild:
  "build_index shared_term_env shared_term_engine =
     Inr (shared_term_rebuilt, save_index ''index.pkl'' shared_term_rebuilt shared_term_env)"
  by (simp add: build_index_def shared_term_env_def shared_term_engine_def example_meta_def
      shared_term_rebuilt_def loader_defs tokenizer_defs builder_defs numeral_2_eq_2)

lemma double_quotient_one_sixth: "double_quotient 1 6 = one_sixth"
  unfolding one_sixth_def by code_simp

lemma six_words_build:
  "build_index six_words_env (init ''articles'' ''metadata.csv'') =
     Inr (six_words_engine, save_index ''index.pkl'' six_words_engine six_words_env)"
proof -
  have "double_quotient (Suc 0) (Suc (Suc (Suc (Suc (Suc (Suc 0)))))) = one_sixth"
    using double_quotient_one_sixth by (simp add: eval_nat_numeral)
  then show ?thesis
    by (simp add: build_index_def six_words_env_def init_def six_words_engine_def
        example_meta_def loader_defs tokenizer_defs build_inverted_index_def
        dict_get_default_def term_frequency_def compute_document_vectors_def
        vector_length_def)
qed

lemma example_search:
  "search example_engine ''alpha'' 10 =
     Inr [\<lparr>doc_id = 2, score = 1, title = Some ''Second'', summary = ''alpha.'',
            url = Some ''http://x/b.txt'', date = Some ''2024''\<rparr>,
          \<lparr>doc_id = 1, score = 1, title = Some ''First'', summary = ''alpha.'',
            url = Some ''http://x/a.txt'', date = Some ''2024''\<rparr>]"
  by (simp add: search_defs example_engine_def example_meta_def tokenizer_defs
      dict_get_def dict_get_default_def vector_length_def strip_def is_space_def)

lemma shared_term_rebuilt_search:
  "search shared_term_rebuilt ''Alpha'' 10 =
     Inr [\<lparr>doc_id = 1, score = 1, title = Some ''First'', summary = ''alpha.'',
            url = Some ''http://x/a.txt'', date = Some ''2024''\<rparr>,
          \<lparr>doc_id = 2, score = 1, title = Some ''Second'', summary = ''alpha.'',
            url = Some ''http://x/b.txt'', date = Some ''2024''\<rparr>]"
proof -
  have "ln 2 * ln 2 / (ln 2 * ln 2) = (1::real)"
    by simp
  then show ?thesis
    by (simp add: search_defs shared_term_rebuilt_def example_meta_def tokenizer_defs
        dict_get_def dict_get_default_def vector_length_def strip_def is_space_def ln_div)
qed

section \<open>Searching before the index exists\<close>

lemma build_query_vector_no_idf: "build_query_vector [] n qv wc = qv"
  by (induction wc arbitrary: qv) auto

text \<open>
  Claim C7 says that \<^verbatim>\<open>search\<close> on an engine whose index is not yet built or loaded
  fails with \<^verbatim>\<open>NotReadyError\<close>. The source has no such check: on the freshly
  constructed engine the query \<^verbatim>\<open>alpha\<close> returns the empty list.
\<close>

theorem search_not_ready_counterexample:
  "search (init ''articles'' ''metadata.csv'') ''alpha'' 10 = Inr []"
  by (simp add: search_def query_vector_of_def init_def tokenizer_defs dict_get_default_def)

text \<open>
  Claim C7, amended: on an engine whose IDF table is still empty (nothing built, nothing
  loaded) \<^verbatim>\<open>search\<close> raises nothing and returns the empty result list, for every
  query and every \<^verbatim>\<open>top_k\<close>.
\<close>

theorem search_without_idf: "idf_values s = [] \<Longrightarrow> search s query top_k = Inr []"
  by (simp add: search_def query_vector_of_def build_query_vector_no_idf Let_def)

theorem search_without_idf_witness:
  "idf_values (init ''articles'' ''metadata.csv'') = []
   \<and> search (init ''articles'' ''metadata.csv'') ''alpha'' 10 = Inr []"
  using search_without_idf [of "init ''articles'' ''metadata.csv''" "''alpha''" 10]
  by (simp add: init_def)

section \<open>The snippet\<close>

lemma any_term_in_list_ex: "any_term_in ts s = list_ex (\<lambda>t. contains t s) ts"
  by (induction ts) auto

lemma matching_sentences_filter:
  "matching_sentences ts acc sentences =
     acc @ map strip (filter (\<lambda>sentence. list_ex (\<lambda>t. contains t (lower sentence)) ts) sentences)"
  by (induction sentences arbitrary: acc) (auto simp: any_term_in_list_ex)

lemma make_summary_snippet_of: "make_summary ts content = snippet_of ts content"
  by (simp add: make_summary_def snippet_of_def matching_sentences_filter Let_def)

lemma make_results_fields:
  "make_results s ts xs = Inr rs \<Longrightarrow> r \<in> set rs \<Longrightarrow>
     (doc_id r, score r) \<in> set xs
     \<and> (\<exists>content. dict_get (documents s) (doc_id r) = Inr content
           \<and> summary r = make_summary ts content)"
proof (induction xs arbitrary: rs)
  case Nil
  then show ?case by simp
next
  case (Cons x xs)
  obtain d sc where x: "x = (d, sc)" by (cases x)
  from Cons.prems(1) obtain content m rs' where
    c: "dict_get (documents s) d = Inr content" and
    m: "dict_get (metadata s) d = Inr m" and
    rest: "make_results s ts xs = Inr rs'" and
    rs: "rs = \<lparr>doc_id = d, score = sc, title = meta_title m,
               summary = make_summary ts content,
               url = meta_url m, date = meta_date m\<rparr> # rs'"
    by (auto simp: x split: sum.splits)
  from Cons.prems(2) rs consider
    "r = \<lparr>doc_id = d, score = sc, title = meta_title m,
               summary = make_summary ts content,
               url = meta_url m, date = meta_date m\<rparr>" | "r \<in> set rs'"
    by auto
  then show ?case
  proof cases
    case 1
    then show ?thesis using c by (simp add: x)
  next
    case 2
    from Cons.IH [OF rest 2] show ?thesis by auto
  qed
qed

lemma make_results_keys:
  "make_results s ts xs = Inr rs \<Longrightarrow> map (\<lambda>r. (doc_id r, score r)) rs = xs"
  by (induction xs arbitrary: rs) (auto split: sum.splits)

lemma search_results_from:
  assumes "search s query top_k = Inr rs" and "rs \<noteq> []"
  shows "\<exists>scores.
           score_documents s (query_vector_of s (preprocess_text query))
             (vector_length (query_vector_of s (preprocess_text query))) [] (documents s)
             = Inr scores
           \<and> make_results s (preprocess_text query) (slice_to top_k (sorted_reverse scores))
             = Inr rs"
  using assms by (auto simp: search_def Let_def split: if_splits sum.splits)

text \<open>
  Claim C9 says that the snippet is the join, with a full stop and a space, of the first
  three sentences containing a query term. The source appends one more full stop: for the
  document \<^verbatim>\<open>alpha\<close> and the query \<^verbatim>\<open>alpha\<close> the summary is \<^verbatim>\<open>alpha.\<close>, where the
  claim has \<^verbatim>\<open>alpha\<close>.
\<close>

theorem snippet_counterexample:
  "search example_engine ''alpha'' 10 =
     Inr [\<lparr>doc_id = 2, score = 1, title = Some ''Second'', summary = ''alpha.'',
            url = Some ''http://x/b.txt'', date = Some ''2024''\<rparr>,
          \<lparr>doc_id = 1, score = 1, title = Some ''First'', summary = ''alpha.'',
            url = Some ''http://x/a.txt'', date = Some ''2024''\<rparr>]
   \<and> dict_get (documents example_engine) 2 = Inr ''alpha''
   \<and> spec_snippet (preprocess_text ''alpha'') ''alpha'' = ''alpha''"
  using example_search
  by (simp add: spec_snippet_def example_engine_def dict_get_def tokenizer_defs is_terminator_def)

text \<open>
  Claim C9, amended: for every result returned by \<^verbatim>\<open>search\<close>, the snippet is obtained
  by splitting the document text on the three terminators, keeping in document order the
  sentences whose lower-case form contains a query term as a substring, stripping each of
  surrounding white space, joining the first three with a full stop and a space and
  appending a full stop; when no sentence matches, the snippet is the empty string.
\<close>

theorem search_summary_is_snippet:
  assumes "search s query top_k = Inr rs" and "r \<in> set rs"
  shows "\<exists>content. dict_get (documents s) (doc_id r) = Inr content
           \<and> summary r = snippet_of (preprocess_text query) content"
proof -
  from assms have "rs \<noteq> []" by auto
  from search_results_from [OF assms(1) this] obtain scores where
    "make_results s (preprocess_text query) (slice_to top_k (sorted_reverse scores)) = Inr rs"
    by blast
  from make_results_fields [OF this assms(2)] show ?thesis
    by (simp add: make_summary_snippet_of)
qed

theorem search_summary_is_snippet_witness:
  "search example_engine ''alpha'' 10 =
     Inr [\<lparr>doc_id = 2, score = 1, title = Some ''Second'', summary = ''alpha.'',
            url = Some ''http://x/b.txt'', date = Some ''2024''\<rparr>,
          \<lparr>doc_id = 1, score = 1, title = Some ''First'', summary = ''alpha.'',
            url = Some ''http://x/a.txt'', date = Some ''2024''\<rparr>]
   \<and> dict_get (documents example_engine) 1 = Inr ''alpha''
   \<and> ''alpha.'' = snippet_of (preprocess_text ''alpha'') ''alpha''"
  using search_summary_is_snippet [OF example_search,
      of "\<lparr>doc_id = 1, score = 1, title = Some ''First'', summary = ''alpha.'',
            url = Some ''http://x/a.txt'', date = Some ''2024''\<rparr>"]
    example_search
  by (simp add: example_engine_def dict_get_def)

section \<open>Loader\<close>

lemma dict_set_new: "k \<notin> fst ` set d \<Longrightarrow> dict_set d k v = d @ [(k, v)]"
  by (induction d) auto

lemma load_metadata_first_error:
  "\<forall>g \<in> set good. \<not> isl (read_row g) \<Longrightarrow> read_row r = Inl e \<Longrightarrow>
   load_metadata md (good @ r # rest) = Inl e"
proof (induction good arbitrary: md)
  case Nil
  then show ?case by simp
next
  case (Cons g good)
  from Cons.prems(1) obtain entry where g: "read_row g = Inr entry"
    by (cases "read_row g") auto
  obtain d m where entry: "entry = (d, m)" by (cases entry)
  from Cons.prems(1) have "\<forall>g \<in> set good. \<not> isl (read_row g)" by simp
  from Cons.IH [OF this Cons.prems(2)] show ?case
    by (simp add: g entry)
qed

lemma load_metadata_returns:
  "\<forall>r \<in> set rows. \<not> isl (read_row r) \<Longrightarrow> \<exists>md'. load_metadata md rows = Inr md'"
proof (induction rows arbitrary: md)
  case Nil
  then show ?case by simp
next
  case (Cons r rows)
  from Cons.prems obtain entry where r: "read_row r = Inr entry"
    by (cases "read_row r") auto
  obtain d m where entry: "entry = (d, m)" by (cases entry)
  from Cons.prems have "\<forall>r \<in> set rows. \<not> isl (read_row r)" by simp
  from Cons.IH [OF this] show ?case
    by (simp add: r entry)
qed

lemma row_entries_Cons:
  "row_entries (r # rows) =
     (case read_row r of Inl e \<Rightarrow> [] | Inr entry \<Rightarrow> [entry]) @ row_entries rows"
  by (simp add: row_entries_def)

lemma map_of_load_metadata:
  "load_metadata md rows = Inr md' \<Longrightarrow>
   map_of md' = map_of md ++ map_of (rev (row_entries rows))"
proof (induction rows arbitrary: md)
  case Nil
  then show ?case by (simp add: row_entries_def)
next
  case (Cons r rows)
  from Cons.prems obtain d m where
    r: "read_row r = Inr (d, m)" and
    rest: "load_metadata (dict_set md d m) rows = Inr md'"
    by (auto split: sum.splits)
  have "map_of md' = map_of (dict_set md d m) ++ map_of (rev (row_entries rows))"
    by (rule Cons.IH [OF rest])
  also have "map_of (dict_set md d m) = map_of md ++ map_of [(d, m)]"
    by (simp add: map_of_dict_set)
  finally have "map_of md' = map_of md ++ map_of [(d, m)] ++ map_of (rev (row_entries rows))" .
  then show ?case
    by (simp add: row_entries_Cons r)
qed

lemma distinct_load_metadata:
  "load_metadata md rows = Inr md' \<Longrightarrow> distinct (map fst md) \<Longrightarrow> distinct (map fst md')"
  by (induction rows arbitrary: md) (auto simp: distinct_dict_set split: sum.splits)

lemma keys_load_metadata:
  "load_metadata md rows = Inr md' \<Longrightarrow>
   fst ` set md' = fst ` set md \<union> fst ` set (row_entries rows)"
proof (induction rows arbitrary: md)
  case Nil
  then show ?case by (simp add: row_entries_def)
next
  case (Cons r rows)
  from Cons.prems obtain d m where
    r: "read_row r = Inr (d, m)" and
    rest: "load_metadata (dict_set md d m) rows = Inr md'"
    by (auto split: sum.splits)
  have "fst ` set (dict_set md d m) = insert d (fst ` set md)"
    using keys_dict_set [of md d m] by (metis (no_types) insert_absorb list.set_map
        list.simps(15) rotate1.simps(2) set_rotate1)
  with Cons.IH [OF rest] show ?case
    by (auto simp: row_entries_Cons r)
qed

lemma load_contents_first_error:
  "\<forall>x \<in> set pre. \<not> isl (open_document fs dir (snd x)) \<Longrightarrow> open_document fs dir m = Inl e \<Longrightarrow>
   load_contents fs dir docs (pre @ (d, m) # post) = Inl e"
proof (induction pre arbitrary: docs)
  case Nil
  then show ?case by simp
next
  case (Cons x pre)
  obtain d' m' where x: "x = (d', m')" by (cases x)
  from Cons.prems(1) obtain content where c: "open_document fs dir m' = Inr content"
    by (cases "open_document fs dir m'") (auto simp: x)
  from Cons.prems(1) have "\<forall>x \<in> set pre. \<not> isl (open_document fs dir (snd x))" by simp
  from Cons.IH [OF this Cons.prems(2)] show ?case
    by (simp add: x c)
qed

lemma load_contents_returns:
  "\<forall>x \<in> set md. \<not> isl (open_document fs dir (snd x)) \<Longrightarrow> distinct (map fst md) \<Longrightarrow>
   fst ` set docs \<inter> fst ` set md = {} \<Longrightarrow>
   load_contents fs dir docs md =
     Inr (docs @ map (\<lambda>x. (fst x, projr (open_document fs dir (snd x)))) md)"
proof (induction md arbitrary: docs)
  case Nil
  then show ?case by simp
next
  case (Cons x md)
  obtain d m where x: "x = (d, m)" by (cases x)
  from Cons.prems(1) obtain content where c: "open_document fs dir m = Inr content"
    by (cases "open_document fs dir m") (auto simp: x)
  from Cons.prems(3) have new: "d \<notin> fst ` set docs" by (auto simp: x)
  have step: "dict_set docs d content = docs @ [(d, content)]"
    using new by (rule dict_set_new)
  have 1: "\<forall>x \<in> set md. \<not> isl (open_document fs dir (snd x))"
    using Cons.prems(1) by simp
  have 2: "distinct (map fst md)" using Cons.prems(2) by simp
  have 3: "fst ` set (docs @ [(d, content)]) \<inter> fst ` set md = {}"
    using Cons.prems(2,3) by (auto simp: x)
  from Cons.IH [OF 1 2 3] show ?case
    by (simp add: x c step)
qed

lemma load_contents_keys:
  "load_contents fs dir docs md = Inr docs' \<Longrightarrow>
   fst ` set docs' = fst ` set docs \<union> fst ` set md"
proof (induction md arbitrary: docs)
  case Nil
  then show ?case by simp
next
  case (Cons p md)
  obtain d m where p: "p = (d, m)" by (cases p)
  from Cons.prems obtain content where
    "load_contents fs dir (dict_set docs d content) md = Inr docs'"
    by (auto simp: p split: sum.splits)
  from Cons.IH [OF this] have "fst ` set docs' = set (map fst (dict_set docs d content)) \<union> fst ` set md"
    by simp
  then show ?case
    by (auto simp: p keys_dict_set split: if_splits)
qed

lemma distinct_load_contents:
  "load_contents fs dir docs md = Inr docs' \<Longrightarrow> distinct (map fst docs) \<Longrightarrow>
   distinct (map fst docs')"
  by (induction md arbitrary: docs) (auto simp: distinct_dict_set split: sum.splits)

text \<open>
  Claim C6 says that a row with an unparsable id is skipped and the corpus is built from
  the remaining rows. In the source \<^verbatim>\<open>int(row['id'])\<close> is not guarded: with a first
  row whose id is \<^verbatim>\<open>x\<close> and a good second row the whole load raises
  \<^verbatim>\<open>ValueError\<close>.
\<close>

theorem load_bad_id_counterexample:
  "load_documents bad_id_env (init ''articles'' ''metadata.csv'') = Inl ValueError"
  by (simp add: bad_id_env_def init_def loader_defs)

lemma py_int_error: "py_int (Some x) = Inl e \<Longrightarrow> e = ValueError"
  by (auto simp: py_int_def Let_def split: list.splits if_splits option.splits)

lemma read_row_id_errors:
  "map_of r ''id'' = None \<Longrightarrow> read_row r = Inl KeyError"
  "map_of r ''id'' = Some None \<Longrightarrow> read_row r = Inl TypeError"
  "map_of r ''id'' = Some (Some x) \<Longrightarrow> py_int (Some x) = Inl e \<Longrightarrow> read_row r = Inl ValueError"
proof -
  show "map_of r ''id'' = None \<Longrightarrow> read_row r = Inl KeyError"
    by (simp add: read_row_def dict_get_def)
  show "map_of r ''id'' = Some None \<Longrightarrow> read_row r = Inl TypeError"
    by (simp add: read_row_def dict_get_def py_int_def)
  show "map_of r ''id'' = Some (Some x) \<Longrightarrow> py_int (Some x) = Inl e \<Longrightarrow> read_row r = Inl ValueError"
    using py_int_error [of x e] by (simp add: read_row_def dict_get_def)
qed

text \<open>
  Claim C6, amended: the loader skips nothing and has no error of its own. When the
  metadata table cannot be read, the load fails with the error of the read. The first row
  that cannot be read fails the whole load with its error; for a row without the column
  \<^verbatim>\<open>id\<close> that is \<^verbatim>\<open>KeyError\<close>, for a short row whose id is \<^verbatim>\<open>None\<close> it is
  \<^verbatim>\<open>TypeError\<close>, and for an id that \<^verbatim>\<open>int\<close> rejects it is \<^verbatim>\<open>ValueError\<close>. The first
  metadata entry whose text cannot be read fails the whole load with the error of that
  read. When a fresh engine can read every row and the text named by the last row of
  every id, the load returns: the metadata of an id is that of its last row, the
  documents are the ids of all rows, each once and in the order of the metadata, each with
  the text of its file, and \<open>N\<close> is their number. A table without rows gives the empty
  corpus with \<open>N = 0\<close> and no error.
\<close>

theorem load_documents_all_or_nothing:
  "(csv_tables fs (metadata_file s) = Inl e \<longrightarrow> load_documents fs s = Inl e)
   \<and> (csv_tables fs (metadata_file s) = Inr (good @ r # rest)
        \<and> (\<forall>g \<in> set good. \<not> isl (read_row g)) \<and> read_row r = Inl e
        \<longrightarrow> load_documents fs s = Inl e)
   \<and> (map_of r ''id'' = None \<longrightarrow> read_row r = Inl KeyError)
   \<and> (map_of r ''id'' = Some None \<longrightarrow> read_row r = Inl TypeError)
   \<and> (map_of r ''id'' = Some (Some x) \<and> isl (py_int (Some x)) \<longrightarrow> read_row r = Inl ValueError)
   \<and> (csv_tables fs (metadata_file s) = Inr rows
        \<and> load_metadata (metadata s) rows = Inr (pre @ (d, m) # post)
        \<and> (\<forall>x \<in> set pre. \<not> isl (open_document fs (articles_dir s) (snd x)))
        \<and> open_document fs (articles_dir s) m = Inl e
        \<longrightarrow> load_documents fs s = Inl e)
   \<and> (csv_tables fs path = Inr rows \<and> (\<forall>r \<in> set rows. \<not> isl (read_row r))
        \<and> (\<forall>d m. map_of (rev (row_entries rows)) d = Some m
               \<longrightarrow> \<not> isl (open_document fs dir m))
        \<longrightarrow> (\<exists>s'. load_documents fs (init dir path) = Inr s'
               \<and> map_of (metadata s') = map_of (rev (row_entries rows))
               \<and> fst ` set (documents s') = fst ` set (row_entries rows)
               \<and> distinct (map fst (documents s'))
               \<and> map fst (documents s') = map fst (metadata s')
               \<and> (\<forall>d m. map_of (metadata s') d = Some m
                      \<longrightarrow> dict_get (documents s') d = open_document fs dir m)
               \<and> N s' = length (documents s')))
   \<and> (csv_tables fs path = Inr []
        \<longrightarrow> load_documents fs (init dir path) = Inr (init dir path))"
proof (intro conjI)
  show "csv_tables fs (metadata_file s) = Inl e \<longrightarrow> load_documents fs s = Inl e"
    by (simp add: load_documents_def)
next
  show "csv_tables fs (metadata_file s) = Inr (good @ r # rest)
        \<and> (\<forall>g \<in> set good. \<not> isl (read_row g)) \<and> read_row r = Inl e
        \<longrightarrow> load_documents fs s = Inl e"
  proof (rule impI)
    assume a: "csv_tables fs (metadata_file s) = Inr (good @ r # rest)
        \<and> (\<forall>g \<in> set good. \<not> isl (read_row g)) \<and> read_row r = Inl e"
    then have "load_metadata (metadata s) (good @ r # rest) = Inl e"
      by (intro load_metadata_first_error) simp_all
    with a show "load_documents fs s = Inl e"
      by (simp add: load_documents_def)
  qed
next
  show "map_of r ''id'' = None \<longrightarrow> read_row r = Inl KeyError"
    by (simp add: read_row_id_errors(1))
next
  show "map_of r ''id'' = Some None \<longrightarrow> read_row r = Inl TypeError"
    by (simp add: read_row_id_errors(2))
next
  show "map_of r ''id'' = Some (Some x) \<and> isl (py_int (Some x)) \<longrightarrow> read_row r = Inl ValueError"
  proof (rule impI)
    assume a: "map_of r ''id'' = Some (Some x) \<and> isl (py_int (Some x))"
    then obtain e' where "py_int (Some x) = Inl e'"
      by (cases "py_int (Some x)") auto
    with a show "read_row r = Inl ValueError"
      by (intro read_row_id_errors(3)) simp_all
  qed
next
  show "csv_tables fs (metadata_file s) = Inr rows
        \<and> load_metadata (metadata s) rows = Inr (pre @ (d, m) # post)
        \<and> (\<forall>x \<in> set pre. \<not> isl (open_document fs (articles_dir s) (snd x)))
        \<and> open_document fs (articles_dir s) m = Inl e
        \<longrightarrow> load_documents fs s = Inl e"
  proof (rule impI)
    assume a: "csv_tables fs (metadata_file s) = Inr rows
        \<and> load_metadata (metadata s) rows = Inr (pre @ (d, m) # post)
        \<and> (\<forall>x \<in> set pre. \<not> isl (open_document fs (articles_dir s) (snd x)))
        \<and> open_document fs (articles_dir s) m = Inl e"
    then have "load_contents fs (articles_dir s) (documents s) (pre @ (d, m) # post) = Inl e"
      by (intro load_contents_first_error) simp_all
    with a show "load_documents fs s = Inl e"
      by (simp add: load_documents_def)
  qed
next
  show "csv_tables fs path = Inr rows \<and> (\<forall>r \<in> set rows. \<not> isl (read_row r))
        \<and> (\<forall>d m. map_of (rev (row_entries rows)) d = Some m
               \<longrightarrow> \<not> isl (open_document fs dir m))
        \<longrightarrow> (\<exists>s'. load_documents fs (init dir path) = Inr s'
               \<and> map_of (metadata s') = map_of (rev (row_entries rows))
               \<and> fst ` set (documents s') = fst ` set (row_entries rows)
               \<and> distinct (map fst (documents s'))
               \<and> map fst (documents s') = map fst (metadata s')
               \<and> (\<forall>d m. map_of (metadata s') d = Some m
                      \<longrightarrow> dict_get (documents s') d = open_document fs dir m)
               \<and> N s' = length (documents s'))"
  proof (rule impI)
    assume a: "csv_tables fs path = Inr rows \<and> (\<forall>r \<in> set rows. \<not> isl (read_row r))
        \<and> (\<forall>d m. map_of (rev (row_entries rows)) d = Some m
               \<longrightarrow> \<not> isl (open_document fs dir m))"
    then have csv: "csv_tables fs path = Inr rows"
      and rows: "\<forall>r \<in> set rows. \<not> isl (read_row r)"
      and files: "\<forall>d m. map_of (rev (row_entries rows)) d = Some m
               \<longrightarrow> \<not> isl (open_document fs dir m)"
      by blast+
    from load_metadata_returns [OF rows, of "[]"] obtain md where
      md: "load_metadata [] rows = Inr md" by blast
    have mmd: "map_of md = map_of (rev (row_entries rows))"
      using map_of_load_metadata [OF md] by simp
    have dmd: "distinct (map fst md)"
      using distinct_load_metadata [OF md] by simp
    have kmd: "fst ` set md = fst ` set (row_entries rows)"
      using keys_load_metadata [OF md] by simp
    have opens: "\<forall>x \<in> set md. \<not> isl (open_document fs dir (snd x))"
    proof
      fix x assume "x \<in> set md"
      then have "map_of md (fst x) = Some (snd x)"
        using dmd by simp
      with files show "\<not> isl (open_document fs dir (snd x))"
        by (simp add: mmd)
    qed
    let ?docs = "map (\<lambda>x. (fst x, projr (open_document fs dir (snd x)))) md"
    have docs: "load_contents fs dir [] md = Inr ?docs"
      using load_contents_returns [OF opens dmd, of "[]"] by simp
    let ?s' = "(init dir path)\<lparr>metadata := md, documents := ?docs, N := length ?docs\<rparr>"
    have load: "load_documents fs (init dir path) = Inr ?s'"
      using csv md docs by (simp add: load_documents_def init_def)
    have kdocs: "map fst ?docs = map fst md"
      by (simp add: comp_def)
    have content: "dict_get ?docs d = open_document fs dir m" if "map_of md d = Some m" for d m
    proof -
      from that have mem: "(d, m) \<in> set md" by (rule map_of_SomeD)
      with opens obtain c where c: "open_document fs dir m = Inr c"
        by (cases "open_document fs dir m") auto
      from mem have "(d, c) \<in> set ?docs"
        using c by force
      moreover have "distinct (map fst ?docs)"
        using dmd by (simp only: kdocs)
      ultimately have "map_of ?docs d = Some c" by simp
      then show ?thesis by (simp add: dict_get_def c)
    qed
    have sdocs: "fst ` set ?docs = fst ` set md"
      using arg_cong [OF kdocs, of set] by (simp only: set_map)
    have "map_of (metadata ?s') = map_of (rev (row_entries rows))"
      using mmd by simp
    moreover have "fst ` set (documents ?s') = fst ` set (row_entries rows)"
      using kmd sdocs by simp
    moreover have "distinct (map fst (documents ?s'))"
      using dmd by (simp add: comp_def)
    moreover have "map fst (documents ?s') = map fst (metadata ?s')"
      by (simp add: comp_def)
    moreover have "\<forall>d m. map_of (metadata ?s') d = Some m
                      \<longrightarrow> dict_get (documents ?s') d = open_document fs dir m"
      using content by simp
    moreover have "N ?s' = length (documents ?s')" by simp
    ultimately show "\<exists>s'. load_documents fs (init dir path) = Inr s'
               \<and> map_of (metadata s') = map_of (rev (row_entries rows))
               \<and> fst ` set (documents s') = fst ` set (row_entries rows)
               \<and> distinct (map fst (documents s'))
               \<and> map fst (documents s') = map fst (metadata s')
               \<and> (\<forall>d m. map_of (metadata s') d = Some m
                      \<longrightarrow> dict_get (documents s') d = open_document fs dir m)
               \<and> N s' = length (documents s')"
      using load by blast
  qed
next
  show "csv_tables fs path = Inr [] \<longrightarrow> load_documents fs (init dir path) = Inr (init dir path)"
    by (simp add: load_documents_def init_def)
qed

theorem load_documents_all_or_nothing_witness:
  "csv_tables no_table_env ''metadata.csv'' = Inl FileNotFoundError
   \<and> load_documents no_table_env (init ''articles'' ''metadata.csv'') = Inl FileNotFoundError
   \<and> map_of row_without_id ''id'' = Some None
   \<and> read_row row_without_id = Inl TypeError
   \<and> load_documents (short_rows_env row_without_id) (init ''articles'' ''metadata.csv'')
       = Inl TypeError
   \<and> load_metadata [] [row_without_filename]
       = Inr [(1, \<lparr>meta_title = Some ''First'', meta_filename = None, meta_url = None,
                   meta_date = None\<rparr>)]
   \<and> load_documents (short_rows_env row_without_filename) (init ''articles'' ''metadata.csv'')
       = Inl TypeError
   \<and> (\<exists>s'. load_documents repeated_id_env (init ''articles'' ''metadata.csv'') = Inr s'
          \<and> map_of (metadata s') 2 = Some (example_meta ''Again'' ''c.txt'')
          \<and> map_of (metadata s') 1 = Some (example_meta ''First'' ''a.txt'')
          \<and> fst ` set (documents s') = {1, 2}
          \<and> dict_get (documents s') 2 = Inr ''beta'')
   \<and> (\<exists>s'. load_documents (short_rows_env row_without_url) (init ''articles'' ''metadata.csv'')
            = Inr s'
          \<and> map_of (metadata s') 1
              = Some \<lparr>meta_title = Some ''First'', meta_filename = Some ''a.txt'',
                      meta_url = None, meta_date = None\<rparr>)
   \<and> load_documents empty_table_env (init ''articles'' ''metadata.csv'')
       = Inr (init ''articles'' ''metadata.csv'')"
proof -
  let ?s = "init ''articles'' ''metadata.csv''"
  let ?short = "\<lparr>meta_title = Some ''First'', meta_filename = None, meta_url = None,
                   meta_date = None\<rparr>"
  let ?rows = "[example_row ''2'' ''Second'' ''b.txt'', example_row ''1'' ''First'' ''a.txt'',
                example_row ''2'' ''Again'' ''c.txt'']"
  let ?nourl = "\<lparr>meta_title = Some ''First'', meta_filename = Some ''a.txt'',
                      meta_url = None, meta_date = None\<rparr>"
  note t = load_documents_all_or_nothing
  have mf: "metadata_file ?s = ''metadata.csv''" and ad: "articles_dir ?s = ''articles''"
    and em: "metadata ?s = []"
    by (simp_all add: init_def)
  have h1: "csv_tables no_table_env (metadata_file ?s) = Inl FileNotFoundError"
    by (simp add: mf no_table_env_def files_of_def)
  have 1: "load_documents no_table_env ?s = Inl FileNotFoundError"
    by (rule t [where fs = no_table_env and s = ?s and e = FileNotFoundError,
          THEN conjunct1, THEN mp]) (rule h1)
  have h2: "map_of row_without_id ''id'' = Some None"
    by (simp add: row_without_id_def)
  have r2: "read_row row_without_id = Inl TypeError"
    by (rule t [where r = row_without_id, THEN conjunct2, THEN conjunct2, THEN conjunct2,
          THEN conjunct1, THEN mp]) (rule h2)
  have c2: "csv_tables (short_rows_env row_without_id) (metadata_file ?s)
      = Inr ([] @ row_without_id # [])"
    by (simp add: mf short_rows_env_def files_of_def)
  have 2: "load_documents (short_rows_env row_without_id) ?s = Inl TypeError"
    by (rule t [where fs = "short_rows_env row_without_id" and s = ?s and e = TypeError
          and good = "[]" and r = row_without_id and rest = "[]",
          THEN conjunct2, THEN conjunct1, THEN mp])
      (simp only: c2 r2 list.set ball_empty simp_thms)
  have c3: "csv_tables (short_rows_env row_without_filename) (metadata_file ?s)
      = Inr [row_without_filename]"
    by (simp add: mf short_rows_env_def files_of_def)
  have m3: "load_metadata (metadata ?s) [row_without_filename] = Inr ([] @ (1, ?short) # [])"
    by (simp add: em row_without_filename_def loader_defs)
  have o3: "open_document (short_rows_env row_without_filename) (articles_dir ?s) ?short
      = Inl TypeError"
    by (simp add: open_document_def)
  have 3: "load_documents (short_rows_env row_without_filename) ?s = Inl TypeError"
    by (rule t [where fs = "short_rows_env row_without_filename" and s = ?s and e = TypeError
          and rows = "[row_without_filename]" and pre = "[]" and d = 1 and post = "[]"
          and m = ?short,
          THEN conjunct2, THEN conjunct2, THEN conjunct2, THEN conjunct2, THEN conjunct2,
          THEN conjunct1, THEN mp])
      (simp only: c3 m3 o3 list.set ball_empty simp_thms)
  have m3': "load_metadata [] [row_without_filename] = Inr [(1, ?short)]"
    using m3 by (simp add: em)
  have re: "row_entries ?rows = [(2, example_meta ''Second'' ''b.txt''),
      (1, example_meta ''First'' ''a.txt''), (2, example_meta ''Again'' ''c.txt'')]"
    by (simp add: row_entries_def example_meta_def loader_defs)
  have c4: "csv_tables repeated_id_env ''metadata.csv'' = Inr ?rows"
    by (simp add: repeated_id_env_def files_of_def)
  have r4: "\<forall>r \<in> set ?rows. \<not> isl (read_row r)"
    by (simp add: loader_defs)
  have o4: "\<forall>d m. map_of (rev (row_entries ?rows)) d = Some m
      \<longrightarrow> \<not> isl (open_document repeated_id_env ''articles'' m)"
    by (auto simp: re repeated_id_env_def example_meta_def open_document_def path_join_def
        files_of_def split: if_splits)
  have "\<exists>s'. load_documents repeated_id_env ?s = Inr s'
      \<and> map_of (metadata s') = map_of (rev (row_entries ?rows))
      \<and> fst ` set (documents s') = fst ` set (row_entries ?rows)
      \<and> distinct (map fst (documents s'))
      \<and> map fst (documents s') = map fst (metadata s')
      \<and> (\<forall>d m. map_of (metadata s') d = Some m
             \<longrightarrow> dict_get (documents s') d = open_document repeated_id_env ''articles'' m)
      \<and> N s' = length (documents s')"
    by (rule t [where fs = repeated_id_env and path = "''metadata.csv''" and dir = "''articles''"
          and rows = ?rows,
          THEN conjunct2, THEN conjunct2, THEN conjunct2, THEN conjunct2, THEN conjunct2,
          THEN conjunct2, THEN conjunct1, THEN mp])
      (intro conjI c4 r4 o4)
  then obtain s4 where
    l4: "load_documents repeated_id_env ?s = Inr s4" and
    m4: "map_of (metadata s4) = map_of (rev (row_entries ?rows))" and
    k4: "fst ` set (documents s4) = fst ` set (row_entries ?rows)" and
    d4: "\<forall>d m. map_of (metadata s4) d = Some m
           \<longrightarrow> dict_get (documents s4) d = open_document repeated_id_env ''articles'' m"
    by blast
  have m42: "map_of (metadata s4) 2 = Some (example_meta ''Again'' ''c.txt'')"
    and m41: "map_of (metadata s4) 1 = Some (example_meta ''First'' ''a.txt'')"
    by (simp_all add: m4 re)
  have k4': "fst ` set (documents s4) = {1, 2}"
    by (auto simp: k4 re)
  have "open_document repeated_id_env ''articles'' (example_meta ''Again'' ''c.txt'') = Inr ''beta''"
    by (simp add: repeated_id_env_def example_meta_def open_document_def path_join_def
        files_of_def)
  with d4 m42 have c4': "dict_get (documents s4) 2 = Inr ''beta''"
    by simp
  from l4 m42 m41 k4' c4' have 4:
    "\<exists>s'. load_documents repeated_id_env ?s = Inr s'
          \<and> map_of (metadata s') 2 = Some (example_meta ''Again'' ''c.txt'')
          \<and> map_of (metadata s') 1 = Some (example_meta ''First'' ''a.txt'')
          \<and> fst ` set (documents s') = {1, 2}
          \<and> dict_get (documents s') 2 = Inr ''beta''"
    by blast
  have re5: "row_entries [row_without_url] = [(1, ?nourl)]"
    by (simp add: row_entries_def row_without_url_def loader_defs)
  have c5: "csv_tables (short_rows_env row_without_url) ''metadata.csv'' = Inr [row_without_url]"
    by (simp add: short_rows_env_def files_of_def)
  have r5: "\<forall>r \<in> set [row_without_url]. \<not> isl (read_row r)"
    by (simp add: row_without_url_def loader_defs)
  have o5: "\<forall>d m. map_of (rev (row_entries [row_without_url])) d = Some m
      \<longrightarrow> \<not> isl (open_document (short_rows_env row_without_url) ''articles'' m)"
    by (auto simp: re5 short_rows_env_def open_document_def path_join_def files_of_def
        split: if_splits)
  have "\<exists>s'. load_documents (short_rows_env row_without_url) ?s = Inr s'
      \<and> map_of (metadata s') = map_of (rev (row_entries [row_without_url]))
      \<and> fst ` set (documents s') = fst ` set (row_entries [row_without_url])
      \<and> distinct (map fst (documents s'))
      \<and> map fst (documents s') = map fst (metadata s')
      \<and> (\<forall>d m. map_of (metadata s') d = Some m
             \<longrightarrow> dict_get (documents s') d
                   = open_document (short_rows_env row_without_url) ''articles'' m)
      \<and> N s' = length (documents s')"
    by (rule t [where fs = "short_rows_env row_without_url" and path = "''metadata.csv''"
          and dir = "''articles''" and rows = "[row_without_url]",
          THEN conjunct2, THEN conjunct2, THEN conjunct2, THEN conjunct2, THEN conjunct2,
          THEN conjunct2, THEN conjunct1, THEN mp])
      (intro conjI c5 r5 o5)
  then obtain s5 where
    l5: "load_documents (short_rows_env row_without_url) ?s = Inr s5" and
    m5: "map_of (metadata s5) = map_of (rev (row_entries [row_without_url]))"
    by blast
  have "map_of (metadata s5) 1 = Some ?nourl"
    by (simp add: m5 re5)
  with l5 have 5: "\<exists>s'. load_documents (short_rows_env row_without_url) ?s = Inr s'
          \<and> map_of (metadata s') 1 = Some ?nourl"
    by blast
  have c6: "csv_tables empty_table_env ''metadata.csv'' = Inr []"
    by (simp add: empty_table_env_def files_of_def)
  have 6: "load_documents empty_table_env ?s = Inr ?s"
    by (rule t [where fs = empty_table_env and path = "''metadata.csv''" and dir = "''articles''",
          THEN conjunct2, THEN conjunct2, THEN conjunct2, THEN conjunct2, THEN conjunct2,
          THEN conjunct2, THEN conjunct2, THEN mp]) (rule c6)
  from h1 [unfolded mf] 1 h2 r2 2 m3' 3 4 5 6 show ?thesis
    by (intro conjI)
qed

section \<open>Round trip\<close>

lemma score_documents_cong:
  "doc_vectors s' = doc_vectors s \<Longrightarrow> doc_lengths s' = doc_lengths s \<Longrightarrow>
   score_documents s' qv ql scores docs = score_documents s qv ql scores docs"
  by (induction docs arbitrary: scores) (auto simp: document_score_def cong: sum.case_cong)

lemma make_results_cong:
  "documents s' = documents s \<Longrightarrow> metadata s' = metadata s \<Longrightarrow>
   make_results s' ts xs = make_results s ts xs"
  by (induction xs) (auto cong: sum.case_cong)

lemma search_cong:
  assumes "documents s' = documents s" "metadata s' = metadata s"
    "idf_values s' = idf_values s" "doc_vectors s' = doc_vectors s"
    "doc_lengths s' = doc_lengths s"
  shows "search s' query top_k = search s query top_k"
  by (simp add: search_def query_vector_of_def score_documents_cong [OF assms(4,5)]
      make_results_cong [OF assms(1,2)] assms(1,3) Let_def cong: sum.case_cong if_cong)

text \<open>
  Claim C4: \<^verbatim>\<open>load_index\<close> of the file that \<^verbatim>\<open>save_index\<close> wrote for an engine, into
  an engine holding the same documents and metadata, succeeds, and \<^verbatim>\<open>search\<close> on the
  loaded engine returns what it returns on the original, for every query and every
  \<^verbatim>\<open>top_k\<close> (errors included).
\<close>

theorem save_load_search:
  assumes "documents s' = documents s" and "metadata s' = metadata s"
  shows "\<exists>r. load_index f (save_index f s fs) s' = Inr r
             \<and> search r query top_k = search s query top_k"
proof -
  let ?r = "s'\<lparr>inverted_index := inverted_index s, idf_values := idf_values s,
                 doc_vectors := doc_vectors s, doc_lengths := doc_lengths s, N := N s\<rparr>"
  have "load_index f (save_index f s fs) s' = Inr ?r"
    by (simp add: load_index_def save_index_def pickle_of_def)
  moreover have "search ?r query top_k = search s query top_k"
    using assms by (intro search_cong) simp_all
  ultimately show ?thesis by blast
qed

theorem save_load_search_witness:
  "documents example_loaded = documents example_engine
   \<and> metadata example_loaded = metadata example_engine
   \<and> (\<exists>r. load_index ''index.pkl'' (save_index ''index.pkl'' example_engine example_env)
              example_loaded = Inr r
            \<and> search r ''alpha'' 10 = search example_engine ''alpha'' 10)"
proof -
  have d: "documents example_loaded = documents example_engine"
    and m: "metadata example_loaded = metadata example_engine"
    by (simp_all add: example_loaded_def example_engine_def)
  from save_load_search [OF d m] d m show ?thesis by blast
qed

text \<open>
  The way \<^verbatim>\<open>main\<close> reaches a ready engine in a later run: a fresh engine calls
  \<^verbatim>\<open>load_index\<close> on the file that the build wrote and then \<^verbatim>\<open>load_documents\<close> on
  the unchanged corpus. Its answers are those of the engine that was built.
\<close>

lemma load_contents_files:
  "text_files fs' = text_files fs \<Longrightarrow>
   load_contents fs' dir docs md = load_contents fs dir docs md"
proof -
  assume a: "text_files fs' = text_files fs"
  then have o: "open_document fs' dir m = open_document fs dir m" for m
    by (simp add: open_document_def split: option.splits)
  show ?thesis
    by (induction md arbitrary: docs) (auto simp: o split: sum.splits)
qed

lemma search_after_restart:
  assumes "build_index fs (init dir file) = Inr (s, fs1)"
  shows "\<exists>s1 s2. load_index ''index.pkl'' fs1 (init dir file) = Inr s1
           \<and> load_documents fs1 s1 = Inr s2
           \<and> search s2 query top_k = search s query top_k"
proof -
  from assms obtain l b where
    l: "load_documents fs (init dir file) = Inr l" and
    b: "build_inverted_index l = Inr b" and
    v: "compute_document_vectors b = Inr s" and
    fs1: "fs1 = save_index ''index.pkl'' s fs"
    by (auto simp: build_index_def split: sum.splits)
  from l obtain rows md docs where
    rows: "csv_tables fs file = Inr rows" and
    md: "load_metadata [] rows = Inr md" and
    docs: "load_contents fs dir [] md = Inr docs" and
    l_eq: "l = (init dir file)\<lparr>metadata := md, documents := docs, N := length docs\<rparr>"
    by (auto simp: load_documents_def init_def split: sum.splits)
  from b have b_fields: "documents b = docs" "metadata b = md"
    by (auto simp: build_inverted_index_def Let_def l_eq split: sum.splits)
  from v have s_fields: "documents s = docs" "metadata s = md"
    using b_fields by (auto simp: compute_document_vectors_def split: sum.splits)
  let ?s1 = "(init dir file)\<lparr>inverted_index := inverted_index s, idf_values := idf_values s,
                 doc_vectors := doc_vectors s, doc_lengths := doc_lengths s, N := N s\<rparr>"
  let ?s2 = "?s1\<lparr>metadata := md, documents := docs, N := length docs\<rparr>"
  have 1: "load_index ''index.pkl'' fs1 (init dir file) = Inr ?s1"
    by (simp add: load_index_def fs1 save_index_def pickle_of_def)
  have "load_contents fs1 dir [] md = Inr docs"
    using docs load_contents_files [of fs1 fs] by (simp add: fs1 save_index_def)
  then have 2: "load_documents fs1 ?s1 = Inr ?s2"
    using rows md by (simp add: load_documents_def fs1 save_index_def init_def)
  have 3: "search ?s2 query top_k = search s query top_k"
    by (rule search_cong) (simp_all add: s_fields)
  from 1 2 3 show ?thesis by blast
qed

section \<open>The index builder\<close>

lemma dict_get_default_dict_set:
  "dict_get_default dflt (dict_set d k v) k' = (if k' = k then v else dict_get_default dflt d k')"
  by (simp add: dict_get_default_def map_of_dict_set)

lemma map_of_count_words:
  "map_of (count_words wc ws) w =
     (if w \<in> set ws \<or> map_of wc w \<noteq> None
      then Some (dict_get_default 0 wc w + count_list ws w) else None)"
proof (induction ws arbitrary: wc)
  case Nil
  then show ?case by (auto simp: dict_get_default_def)
next
  case (Cons x ws)
  then show ?case
    by (auto simp: map_of_dict_set dict_get_default_dict_set)
qed

lemma distinct_count_words:
  "distinct (map fst wc) \<Longrightarrow> distinct (map fst (count_words wc ws))"
  by (induction ws arbitrary: wc) (auto simp: distinct_dict_set)

lemma count_words_entry:
  "(w, c) \<in> set (count_words [] ws) \<longleftrightarrow> w \<in> set ws \<and> c = count_list ws w"
proof -
  have "distinct (map fst (count_words [] ws))"
    by (simp add: distinct_count_words)
  then have "(w, c) \<in> set (count_words [] ws) \<longleftrightarrow> map_of (count_words [] ws) w = Some c"
    by simp
  then show ?thesis
    by (auto simp: map_of_count_words dict_get_default_def)
qed

lemma map_of_add_postings:
  "distinct (map fst wc) \<Longrightarrow>
   map_of (add_postings idx d ws wc) t =
     (case map_of wc t of
        None \<Rightarrow> map_of idx t
      | Some c \<Rightarrow> Some (dict_get_default [] idx t @ [(d, term_frequency c ws)]))"
proof (induction wc arbitrary: idx)
  case Nil
  then show ?case by simp
next
  case (Cons p wc)
  obtain w c where p: "p = (w, c)" by (cases p)
  from Cons.prems have nw: "map_of wc w = None" and dw: "distinct (map fst wc)"
    by (auto simp: p map_of_eq_None_iff)
  show ?case
    using Cons.IH [OF dw] nw
    by (auto simp: p map_of_dict_set dict_get_default_dict_set split: option.splits)
qed

lemma distinct_add_postings:
  "distinct (map fst idx) \<Longrightarrow> distinct (map fst (add_postings idx d ws wc))"
  by (induction wc arbitrary: idx) (auto simp: distinct_dict_set)

lemma distinct_index_documents:
  "distinct (map fst idx) \<Longrightarrow> distinct (map fst (index_documents idx docs))"
  by (induction docs arbitrary: idx) (auto simp: distinct_add_postings Let_def)

lemma map_of_index_documents:
  "map_of (index_documents idx docs) t =
     (if map_of idx t = None \<and> postings_for t docs = [] then None
      else Some (dict_get_default [] idx t @ postings_for t docs))"
proof (induction docs arbitrary: idx)
  case Nil
  then show ?case by (auto simp: postings_for_def dict_get_default_def)
next
  case (Cons p docs)
  obtain d content where p: "p = (d, content)" by (cases p)
  let ?ws = "preprocess_text content"
  have dst: "distinct (map fst (count_words [] ?ws))"
    by (simp add: distinct_count_words)
  have step: "map_of (add_postings idx d ?ws (count_words [] ?ws)) t =
     (if t \<in> set ?ws
      then Some (dict_get_default [] idx t @ [(d, term_frequency (count_list ?ws t) ?ws)])
      else map_of idx t)"
    by (auto simp: map_of_add_postings [OF dst] map_of_count_words dict_get_default_def)
  show ?case
    using step
    by (auto simp: p Let_def Cons.IH postings_for_def posting_of_def dict_get_default_def)
qed

lemma length_filter_all: "length (filter P xs) = length xs \<longleftrightarrow> (\<forall>x \<in> set xs. P x)"
proof (induction xs)
  case Nil
  show ?case by simp
next
  case (Cons x xs)
  have "length (filter P xs) \<le> length xs" by simp
  then have "\<not> P x \<Longrightarrow> length (filter P xs) \<noteq> Suc (length xs)" by linarith
  with Cons show ?case by auto
qed

lemma length_postings_for:
  "length (postings_for t docs) =
     length (filter (\<lambda>doc. t \<in> set (preprocess_text (snd doc))) docs)"
  by (induction docs) (auto simp: postings_for_def posting_of_def Let_def)

lemma length_postings_for_le: "length (postings_for t docs) \<le> length docs"
  by (simp add: length_postings_for)

lemma length_postings_for_all:
  "length (postings_for t docs) = length docs
     \<longleftrightarrow> (\<forall>doc \<in> set docs. t \<in> set (preprocess_text (snd doc)))"
  by (simp add: length_postings_for length_filter_all)

lemma term_frequency_bounds:
  assumes "count \<le> length ws"
  shows "0 \<le> term_frequency count ws" and "term_frequency count ws \<le> 1"
proof -
  show "0 \<le> term_frequency count ws"
    by (simp add: term_frequency_def double_quotient_nonneg)
  show "term_frequency count ws \<le> 1"
  proof (cases "ws = []")
    case True
    then show ?thesis by (simp add: term_frequency_def)
  next
    case False
    then have "0 < length ws" by simp
    from double_quotient_le_one [OF assms this] False show ?thesis
      by (simp add: term_frequency_def)
  qed
qed

lemma postings_for_tf:
  "(d, tf) \<in> set (postings_for t docs) \<Longrightarrow> 0 \<le> tf \<and> tf \<le> 1"
proof -
  assume "(d, tf) \<in> set (postings_for t docs)"
  then obtain doc where "(d, tf) \<in> set (posting_of t doc)"
    by (auto simp: postings_for_def)
  then have tf: "tf = term_frequency (count_list (preprocess_text (snd doc)) t)
                       (preprocess_text (snd doc))"
    by (auto simp: posting_of_def Let_def split: if_splits)
  have "count_list (preprocess_text (snd doc)) t \<le> length (preprocess_text (snd doc))"
    by (rule count_le_length)
  from term_frequency_bounds [OF this] show ?thesis
    by (simp add: tf)
qed

lemma map_of_fresh_index:
  "map_of (index_documents [] docs) t =
     (if postings_for t docs = [] then None else Some (postings_for t docs))"
  by (simp add: map_of_index_documents dict_get_default_def)

lemma fresh_index_entry:
  "(t, ps) \<in> set (index_documents [] docs) \<longleftrightarrow> ps = postings_for t docs \<and> ps \<noteq> []"
proof -
  have "distinct (map fst (index_documents [] docs))"
    by (simp add: distinct_index_documents)
  then have "(t, ps) \<in> set (index_documents [] docs)
               \<longleftrightarrow> map_of (index_documents [] docs) t = Some ps"
    by simp
  then show ?thesis by (auto simp: map_of_fresh_index)
qed

section \<open>The IDF table\<close>

lemma compute_idf_ok:
  "\<forall>(t, ps) \<in> set items. ps \<noteq> [] \<Longrightarrow> items \<noteq> [] \<longrightarrow> 0 < n \<Longrightarrow> distinct (map fst items) \<Longrightarrow>
   \<exists>idf'. compute_idf n idf items = Inr idf'
     \<and> (\<forall>t. map_of idf' t =
           (case map_of items t of
              None \<Rightarrow> map_of idf t
            | Some ps \<Rightarrow> Some (ln (real n / real (length ps)))))"
proof (induction items arbitrary: idf)
  case Nil
  then show ?case by simp
next
  case (Cons p items)
  obtain t ps where p: "p = (t, ps)" by (cases p)
  from Cons.prems have ps: "ps \<noteq> []" and n: "0 < n"
    and rest: "\<forall>(t, ps) \<in> set items. ps \<noteq> []" "items \<noteq> [] \<longrightarrow> 0 < n" "distinct (map fst items)"
    and nt: "map_of items t = None"
    by (auto simp: p map_of_eq_None_iff)
  from Cons.IH [OF rest, of "dict_set idf t (ln (real n / real (length ps)))"]
  obtain idf' where
    r: "compute_idf n (dict_set idf t (ln (real n / real (length ps)))) items = Inr idf'"
    and m: "\<forall>u. map_of idf' u =
           (case map_of items u of
              None \<Rightarrow> map_of (dict_set idf t (ln (real n / real (length ps)))) u
            | Some qs \<Rightarrow> Some (ln (real n / real (length qs))))"
    by blast
  have "compute_idf n idf (p # items) = Inr idf'"
    using ps n r by (simp add: p)
  moreover have "\<forall>u. map_of idf' u =
           (case map_of (p # items) u of
              None \<Rightarrow> map_of idf u
            | Some qs \<Rightarrow> Some (ln (real n / real (length qs))))"
    using m nt by (auto simp: p map_of_dict_set split: option.splits)
  ultimately show ?case by blast
qed

lemma distinct_compute_idf:
  "compute_idf n idf items = Inr idf' \<Longrightarrow> distinct (map fst idf) \<Longrightarrow> distinct (map fst idf')"
  by (induction items arbitrary: idf) (auto simp: distinct_dict_set split: if_splits)

section \<open>The loaded corpus\<close>

lemma load_documents_fresh:
  assumes "load_documents fs (init dir file) = Inr s"
  shows "distinct (map fst (documents s))"
    and "fst ` set (documents s) = fst ` set (metadata s)"
    and "N s = length (documents s)"
    and "inverted_index s = []" and "idf_values s = []"
    and "doc_vectors s = []" and "doc_lengths s = []"
proof -
  from assms obtain rows md docs where
    md: "load_metadata [] rows = Inr md" and
    docs: "load_contents fs dir [] md = Inr docs" and
    s: "s = (init dir file)\<lparr>metadata := md, documents := docs, N := length docs\<rparr>"
    by (auto simp: load_documents_def init_def split: sum.splits)
  show "distinct (map fst (documents s))"
    using distinct_load_contents [OF docs] by (simp add: s)
  show "fst ` set (documents s) = fst ` set (metadata s)"
    using load_contents_keys [OF docs] by (simp add: s)
  show "N s = length (documents s)" by (simp add: s)
  show "inverted_index s = []" "idf_values s = []" "doc_vectors s = []" "doc_lengths s = []"
    by (simp_all add: s init_def)
qed

section \<open>The vectorizer\<close>

lemma set_dict_set: "set (dict_set d k v) \<subseteq> insert (k, v) (set d)"
  by (induction d) (auto split: if_splits)

lemma scan_postings_ok:
  assumes "map_of idf t = Some i" and "0 \<le> i"
  shows "\<forall>p \<in> set ps. 0 \<le> snd p \<Longrightarrow> distinct (map fst vec) \<Longrightarrow> \<forall>e \<in> set vec. 0 \<le> snd e \<Longrightarrow>
     \<exists>vec'. scan_postings idf d t vec ps = Inr vec'
        \<and> distinct (map fst vec') \<and> (\<forall>e \<in> set vec'. 0 \<le> snd e)"
proof (induction ps arbitrary: vec)
  case Nil
  then show ?case by simp
next
  case (Cons p ps)
  obtain d' tf where p: "p = (d', tf)" by (cases p)
  show ?case
  proof (cases "d' = d")
    case True
    from Cons.prems have tf: "0 \<le> tf" by (simp add: p)
    have "\<forall>e \<in> set (dict_set vec t (tf * i)). 0 \<le> snd e"
      using set_dict_set [of vec t "tf * i"] Cons.prems(3) tf assms(2) by auto
    with Cons.IH [of "dict_set vec t (tf * i)"] Cons.prems
    show ?thesis
      by (simp add: p True dict_get_def assms(1) distinct_dict_set)
  next
    case False
    with Cons.IH [of vec] Cons.prems show ?thesis by (simp add: p)
  qed
qed

lemma scan_index_ok:
  "\<forall>e \<in> set idx. (\<exists>i. map_of idf (fst e) = Some i \<and> 0 \<le> i) \<and> (\<forall>p \<in> set (snd e). 0 \<le> snd p) \<Longrightarrow>
   distinct (map fst vec) \<Longrightarrow> \<forall>e \<in> set vec. 0 \<le> snd e \<Longrightarrow>
     \<exists>vec'. scan_index idf d vec idx = Inr vec'
        \<and> distinct (map fst vec') \<and> (\<forall>e \<in> set vec'. 0 \<le> snd e)"
proof (induction idx arbitrary: vec)
  case Nil
  then show ?case by simp
next
  case (Cons e idx)
  obtain t ps where e: "e = (t, ps)" by (cases e)
  from Cons.prems(1) obtain i where i: "map_of idf t = Some i" "0 \<le> i"
    and ps: "\<forall>p \<in> set ps. 0 \<le> snd p"
    by (auto simp: e)
  from scan_postings_ok [OF i ps Cons.prems(2,3)] obtain vec1 where
    v1: "scan_postings idf d t vec ps = Inr vec1" "distinct (map fst vec1)"
        "\<forall>e \<in> set vec1. 0 \<le> snd e"
    by blast
  from Cons.prems(1) have rest:
    "\<forall>e \<in> set idx. (\<exists>i. map_of idf (fst e) = Some i \<and> 0 \<le> i) \<and> (\<forall>p \<in> set (snd e). 0 \<le> snd p)"
    by simp
  from Cons.IH [OF rest v1(2,3)] v1(1) show ?case by (simp add: e)
qed

lemma vectorize_ok:
  assumes idx: "\<forall>e \<in> set idx. (\<exists>i. map_of idf (fst e) = Some i \<and> 0 \<le> i)
                   \<and> (\<forall>p \<in> set (snd e). 0 \<le> snd p)"
  shows "\<forall>d vec. map_of dv d = Some vec \<longrightarrow>
            map_of dl d = Some (vector_length vec) \<and> distinct (map fst vec)
            \<and> (\<forall>e \<in> set vec. 0 \<le> snd e) \<Longrightarrow>
     \<exists>dv' dl'. vectorize idx idf (dv, dl) docs = Inr (dv', dl')
        \<and> (\<forall>d vec. map_of dv' d = Some vec \<longrightarrow>
              map_of dl' d = Some (vector_length vec) \<and> distinct (map fst vec)
              \<and> (\<forall>e \<in> set vec. 0 \<le> snd e))
        \<and> (\<forall>d. map_of dv d \<noteq> None \<or> d \<in> fst ` set docs \<longrightarrow> map_of dv' d \<noteq> None)"
proof (induction docs arbitrary: dv dl)
  case Nil
  then show ?case by simp
next
  case (Cons doc docs)
  obtain d content where doc: "doc = (d, content)" by (cases doc)
  from scan_index_ok [OF idx, of "[]" d] obtain vec where
    vec: "scan_index idf d [] idx = Inr vec" "distinct (map fst vec)" "\<forall>e \<in> set vec. 0 \<le> snd e"
    by auto
  let ?dv = "dict_set dv d vec" and ?dl = "dict_set dl d (vector_length vec)"
  have inv: "\<forall>d' vec'. map_of ?dv d' = Some vec' \<longrightarrow>
            map_of ?dl d' = Some (vector_length vec') \<and> distinct (map fst vec')
            \<and> (\<forall>e \<in> set vec'. 0 \<le> snd e)"
    using Cons.prems vec(2,3) by (auto simp: map_of_dict_set)
  from Cons.IH [OF inv] obtain dv' dl' where
    r: "vectorize idx idf (?dv, ?dl) docs = Inr (dv', dl')"
    and i': "\<forall>d vec. map_of dv' d = Some vec \<longrightarrow>
              map_of dl' d = Some (vector_length vec) \<and> distinct (map fst vec)
              \<and> (\<forall>e \<in> set vec. 0 \<le> snd e)"
    and k: "\<forall>d'. map_of ?dv d' \<noteq> None \<or> d' \<in> fst ` set docs \<longrightarrow> map_of dv' d' \<noteq> None"
    by blast
  have "vectorize idx idf (dv, dl) (doc # docs) = Inr (dv', dl')"
    using vec(1) r by (simp add: doc)
  moreover have "\<forall>d'. map_of dv d' \<noteq> None \<or> d' \<in> fst ` set (doc # docs) \<longrightarrow> map_of dv' d' \<noteq> None"
    using k by (auto simp: doc map_of_dict_set)
  ultimately show ?case using i' by blast
qed

section \<open>A build on a fresh engine\<close>

lemma fresh_idf:
  assumes "n = length docs"
  shows "\<exists>idf. compute_idf n [] (index_documents [] docs) = Inr idf
           \<and> (\<forall>t. map_of idf t =
                 (if postings_for t docs = [] then None
                  else Some (ln (real n / real (length (postings_for t docs))))))"
proof -
  let ?items = "index_documents [] docs"
  have 1: "\<forall>(t, ps) \<in> set ?items. ps \<noteq> []"
    by (auto simp: fresh_index_entry)
  have 2: "?items \<noteq> [] \<longrightarrow> 0 < n"
  proof
    assume "?items \<noteq> []"
    then obtain t ps where "(t, ps) \<in> set ?items"
      by (cases ?items) auto
    then have "postings_for t docs \<noteq> []" by (auto simp: fresh_index_entry)
    then have "docs \<noteq> []" by (auto simp: postings_for_def)
    then show "0 < n" by (simp add: assms)
  qed
  have 3: "distinct (map fst ?items)" by (simp add: distinct_index_documents)
  from compute_idf_ok [OF 1 2 3, of "[]"] show ?thesis
    by (auto simp: map_of_fresh_index)
qed

lemma idf_nonneg:
  assumes "ps = postings_for t docs" and "ps \<noteq> []"
  shows "0 \<le> ln (real (length docs) / real (length ps))"
proof -
  have "length ps \<le> length docs" by (simp add: assms(1) length_postings_for_le)
  moreover have "0 < length ps" using assms(2) by simp
  ultimately have "1 \<le> real (length docs) / real (length ps)"
    by (simp add: le_divide_eq_1)
  then show ?thesis by simp
qed

lemma build_index_fresh:
  assumes "build_index fs (init dir file) = Inr (s, fs')"
  shows "distinct (map fst (documents s))"
    and "fst ` set (documents s) = fst ` set (metadata s)"
    and "N s = length (documents s)"
    and "inverted_index s = index_documents [] (documents s)"
    and "compute_idf (N s) [] (inverted_index s) = Inr (idf_values s)"
    and "vectorize (inverted_index s) (idf_values s) ([], []) (documents s)
           = Inr (doc_vectors s, doc_lengths s)"
proof -
  from assms obtain s1 s2 where
    1: "load_documents fs (init dir file) = Inr s1" and
    2: "build_inverted_index s1 = Inr s2" and
    3: "compute_document_vectors s2 = Inr s"
    by (auto simp: build_index_def split: sum.splits)
  note l = load_documents_fresh [OF 1]
  from 2 obtain idf where
    idf: "compute_idf (N s1) [] (index_documents [] (documents s1)) = Inr idf" and
    s2: "s2 = s1\<lparr>inverted_index := index_documents [] (documents s1), idf_values := idf\<rparr>"
    by (auto simp: build_inverted_index_def Let_def l split: sum.splits)
  from 3 obtain dv dl where
    v: "vectorize (inverted_index s2) (idf_values s2) ([], []) (documents s2) = Inr (dv, dl)" and
    s: "s = s2\<lparr>doc_vectors := dv, doc_lengths := dl\<rparr>"
    by (auto simp: compute_document_vectors_def s2 l split: sum.splits)
  show "distinct (map fst (documents s))" using l(1) by (simp add: s s2)
  show "fst ` set (documents s) = fst ` set (metadata s)" using l(2) by (simp add: s s2)
  show "N s = length (documents s)" using l(3) by (simp add: s s2)
  show "inverted_index s = index_documents [] (documents s)" by (simp add: s s2)
  show "compute_idf (N s) [] (inverted_index s) = Inr (idf_values s)"
    using idf by (simp add: s s2)
  show "vectorize (inverted_index s) (idf_values s) ([], []) (documents s)
           = Inr (doc_vectors s, doc_lengths s)"
    using v by (simp add: s s2)
qed

lemma built_idf:
  assumes "build_index fs (init dir file) = Inr (s, fs')"
  shows "map_of (idf_values s) t =
           (if postings_for t (documents s) = [] then None
            else Some (ln (real (N s) / real (length (postings_for t (documents s))))))"
proof -
  note b = build_index_fresh [OF assms]
  from fresh_idf [OF b(3)] b(4,5) show ?thesis by auto
qed

lemma built_vectors:
  assumes "build_index fs (init dir file) = Inr (s, fs')"
  shows "\<forall>d vec. map_of (doc_vectors s) d = Some vec \<longrightarrow>
              map_of (doc_lengths s) d = Some (vector_length vec) \<and> distinct (map fst vec)
              \<and> (\<forall>e \<in> set vec. 0 \<le> snd e)"
    and "\<forall>d \<in> fst ` set (documents s). map_of (doc_vectors s) d \<noteq> None"
proof -
  note b = build_index_fresh [OF assms]
  have idx: "\<forall>e \<in> set (inverted_index s).
               (\<exists>i. map_of (idf_values s) (fst e) = Some i \<and> 0 \<le> i)
               \<and> (\<forall>p \<in> set (snd e). 0 \<le> snd p)"
  proof
    fix e assume "e \<in> set (inverted_index s)"
    then have e: "snd e = postings_for (fst e) (documents s)" "snd e \<noteq> []"
      using fresh_index_entry [of "fst e" "snd e" "documents s"] by (auto simp: b(4))
    have "map_of (idf_values s) (fst e)
            = Some (ln (real (length (documents s)) / real (length (snd e))))"
      using e by (simp add: built_idf [OF assms] b(3))
    moreover have "0 \<le> ln (real (length (documents s)) / real (length (snd e)))"
      using e by (intro idf_nonneg) simp_all
    moreover have "\<forall>p \<in> set (snd e). 0 \<le> snd p"
      using postings_for_tf [of _ _ "fst e" "documents s"] e(1) by auto
    ultimately show "(\<exists>i. map_of (idf_values s) (fst e) = Some i \<and> 0 \<le> i)
               \<and> (\<forall>p \<in> set (snd e). 0 \<le> snd p)"
      by blast
  qed
  have "\<forall>d vec. map_of ([] :: (int, (string, real) dict) dict) d = Some vec \<longrightarrow>
            map_of ([] :: (int, real) dict) d = Some (vector_length vec) \<and> distinct (map fst vec)
            \<and> (\<forall>e \<in> set vec. 0 \<le> snd e)"
    by simp
  from vectorize_ok [OF idx this, of "documents s"] b(6)
  show "\<forall>d vec. map_of (doc_vectors s) d = Some vec \<longrightarrow>
              map_of (doc_lengths s) d = Some (vector_length vec) \<and> distinct (map fst vec)
              \<and> (\<forall>e \<in> set vec. 0 \<le> snd e)"
    and "\<forall>d \<in> fst ` set (documents s). map_of (doc_vectors s) d \<noteq> None"
    by auto
qed

section \<open>The IDF values of a built index\<close>

text \<open>
  Claim C3 says that after a build every IDF value is at least 0. A build on an engine
  that was built before appends to the posting lists it finds: after the second build of
  the example corpus the list of \<^verbatim>\<open>alpha\<close> has four postings for \<open>N = 3\<close> documents, and
  the IDF value of \<^verbatim>\<open>alpha\<close> is \<open>ln (3 / 4)\<close>, which is negative.
\<close>

theorem rebuilt_idf_counterexample:
  "build_index example_env example_engine
     = Inr (example_rebuilt, save_index ''index.pkl'' example_rebuilt example_env)
   \<and> N example_rebuilt = 3
   \<and> dict_get (inverted_index example_rebuilt) ''alpha'' = Inr [(2, 1), (1, 1), (2, 1), (1, 1)]
   \<and> dict_get (idf_values example_rebuilt) ''alpha'' = Inr (ln (3 / 4))
   \<and> ln (3 / 4) < (0::real)"
  using example_rebuild by (simp add: example_rebuilt_def dict_get_def)

text \<open>
  Claim C3, amended: after a build on a freshly constructed engine, for every term \<open>t\<close>
  of the index with posting list \<open>ps\<close>, the IDF table holds \<open>ln (N / length ps)\<close> for
  \<open>t\<close>; this value is not negative, and it is 0 exactly when \<open>t\<close> is among the filtered
  tokens of every loaded document. (A term in the index implies that at least one document
  was loaded.)
\<close>

theorem built_idf_values:
  assumes "build_index fs (init dir file) = Inr (s, fs')"
    and "(t, ps) \<in> set (inverted_index s)"
  shows "dict_get (idf_values s) t = Inr (ln (real (N s) / real (length ps)))
         \<and> 0 \<le> ln (real (N s) / real (length ps))
         \<and> (ln (real (N s) / real (length ps)) = 0
              \<longleftrightarrow> (\<forall>doc \<in> set (documents s). t \<in> set (preprocess_text (snd doc))))"
proof -
  note b = build_index_fresh [OF assms(1)]
  from assms(2) have ps: "ps = postings_for t (documents s)" "ps \<noteq> []"
    by (auto simp: b(4) fresh_index_entry)
  have 1: "dict_get (idf_values s) t = Inr (ln (real (N s) / real (length ps)))"
    using ps by (simp add: dict_get_def built_idf [OF assms(1)])
  have 2: "0 \<le> ln (real (N s) / real (length ps))"
    using idf_nonneg [OF ps] by (simp add: b(3))
  have pos: "0 < length ps" using ps(2) by simp
  have le: "length ps \<le> N s" by (simp add: ps(1) b(3) length_postings_for_le)
  then have n: "0 < N s" using pos by linarith
  have "ln (real (N s) / real (length ps)) = 0 \<longleftrightarrow> real (N s) / real (length ps) = 1"
    using pos n by (intro ln_eq_zero_iff) simp
  also have "\<dots> \<longleftrightarrow> length ps = N s"
    using pos by auto
  also have "\<dots> \<longleftrightarrow> (\<forall>doc \<in> set (documents s). t \<in> set (preprocess_text (snd doc)))"
    by (simp add: ps(1) b(3) length_postings_for_all)
  finally show ?thesis using 1 2 by blast
qed

theorem built_idf_values_witness:
  "build_index example_env (init ''articles'' ''metadata.csv'')
     = Inr (example_engine, save_index ''index.pkl'' example_engine example_env)
   \<and> (''alpha'', [(2, 1), (1, 1)]) \<in> set (inverted_index example_engine)
   \<and> dict_get (idf_values example_engine) ''alpha'' = Inr (ln (real (N example_engine) / real 2))
   \<and> 0 \<le> ln (real (N example_engine) / real 2)
   \<and> ln (real (N example_engine) / real 2) \<noteq> 0
   \<and> \<not> (\<forall>doc \<in> set (documents example_engine). ''alpha'' \<in> set (preprocess_text (snd doc)))"
proof -
  have m: "(''alpha'', [(2, 1), (1, 1)]) \<in> set (inverted_index example_engine)"
    by (simp add: example_engine_def)
  have n: "\<not> (\<forall>doc \<in> set (documents example_engine). ''alpha'' \<in> set (preprocess_text (snd doc)))"
    by (simp add: example_engine_def tokenizer_defs)
  from built_idf_values [OF example_build m] n example_build m show ?thesis
    by simp
qed

section \<open>Term frequencies of one document\<close>

lemma filter_postings_for_absent:
  "d \<notin> fst ` set docs \<Longrightarrow> filter (\<lambda>p. fst p = d) (postings_for t docs) = []"
  by (induction docs) (auto simp: postings_for_def posting_of_def Let_def)

lemma filter_postings_for:
  "distinct (map fst docs) \<Longrightarrow> (d, content) \<in> set docs \<Longrightarrow>
   filter (\<lambda>p. fst p = d) (postings_for t docs) = posting_of t (d, content)"
proof (induction docs)
  case Nil
  then show ?case by simp
next
  case (Cons doc docs)
  have split: "postings_for t (x # docs) = posting_of t x @ postings_for t docs" for x
    by (simp add: postings_for_def)
  show ?case
  proof (cases "doc = (d, content)")
    case True
    with Cons.prems have "d \<notin> fst ` set docs" by auto
    then have "filter (\<lambda>p. fst p = d) (postings_for t docs) = []"
      by (rule filter_postings_for_absent)
    moreover have "filter (\<lambda>p. fst p = d) (posting_of t (d, content)) = posting_of t (d, content)"
      by (simp add: posting_of_def Let_def)
    ultimately show ?thesis by (simp add: split True)
  next
    case False
    with Cons.prems have in_rest: "(d, content) \<in> set docs" and dst: "distinct (map fst docs)"
      by auto
    from in_rest have "d \<in> fst ` set docs" by force
    with Cons.prems(1) have "fst doc \<noteq> d" by auto
    then have "filter (\<lambda>p. fst p = d) (posting_of t doc) = []"
      by (simp add: posting_of_def Let_def)
    with Cons.IH [OF dst in_rest] show ?thesis by (simp add: split)
  qed
qed

lemma concat_map_if:
  "concat (map (\<lambda>e. if P (f e) then [g (f e)] else []) xs) = map g (filter P (map f xs))"
  by (induction xs) auto

lemma postings_of_document_fresh:
  assumes "distinct (map fst docs)" and "(d, content) \<in> set docs"
  shows "postings_of_document (index_documents [] docs) d =
      map (\<lambda>t. (t, term_frequency (count_list (preprocess_text content) t)
                    (preprocess_text content)))
        (filter (\<lambda>t. t \<in> set (preprocess_text content)) (map fst (index_documents [] docs)))"
proof -
  let ?ws = "preprocess_text content"
  let ?g = "\<lambda>t. (t, term_frequency (count_list ?ws t) ?ws)"
  have "map (\<lambda>(t, ps). map (\<lambda>p. (t, snd p)) (filter (\<lambda>p. fst p = d) ps)) (index_documents [] docs)
      = map (\<lambda>e. if fst e \<in> set ?ws then [?g (fst e)] else []) (index_documents [] docs)"
  proof (rule map_cong [OF refl])
    fix e assume "e \<in> set (index_documents [] docs)"
    then have "snd e = postings_for (fst e) docs"
      using fresh_index_entry [of "fst e" "snd e" docs] by auto
    then have "filter (\<lambda>p. fst p = d) (snd e) = posting_of (fst e) (d, content)"
      using filter_postings_for [OF assms] by simp
    then show "(case e of (t, ps) \<Rightarrow> map (\<lambda>p. (t, snd p)) (filter (\<lambda>p. fst p = d) ps))
                = (if fst e \<in> set ?ws then [?g (fst e)] else [])"
      by (cases e) (simp add: posting_of_def Let_def)
  qed
  then have "postings_of_document (index_documents [] docs) d
      = concat (map (\<lambda>e. if fst e \<in> set ?ws then [?g (fst e)] else []) (index_documents [] docs))"
    unfolding postings_of_document_def by (rule arg_cong)
  also have "\<dots> = map ?g (filter (\<lambda>t. t \<in> set ?ws) (map fst (index_documents [] docs)))"
    by (rule concat_map_if [of "\<lambda>t. t \<in> set ?ws" fst ?g])
  finally show ?thesis .
qed

lemma fresh_index_keys:
  "fst ` set (index_documents [] docs) = {t. postings_for t docs \<noteq> []}"
proof -
  have "t \<in> fst ` set (index_documents [] docs) \<longleftrightarrow> postings_for t docs \<noteq> []" for t
  proof -
    have "t \<in> fst ` set (index_documents [] docs)
            \<longleftrightarrow> (\<exists>ps. (t, ps) \<in> set (index_documents [] docs))"
      by force
    then show ?thesis by (simp add: fresh_index_entry)
  qed
  then show ?thesis by blast
qed

lemma postings_for_member:
  "(d, content) \<in> set docs \<Longrightarrow> t \<in> set (preprocess_text content) \<Longrightarrow> postings_for t docs \<noteq> []"
  by (induction docs) (auto simp: postings_for_def posting_of_def Let_def)

lemma sum_list_close:
  fixes f g :: "'a \<Rightarrow> real"
  assumes "\<forall>x \<in> set xs. \<bar>f x - g x\<bar> \<le> c"
  shows "\<bar>sum_list (map f xs) - sum_list (map g xs)\<bar> \<le> real (length xs) * c"
  using assms
proof (induction xs)
  case Nil
  then show ?case by simp
next
  case (Cons x xs)
  then have 1: "\<bar>f x - g x\<bar> \<le> c"
    and 2: "\<bar>sum_list (map f xs) - sum_list (map g xs)\<bar> \<le> real (length xs) * c"
    by simp_all
  have "\<bar>sum_list (map f (x # xs)) - sum_list (map g (x # xs))\<bar>
          \<le> \<bar>f x - g x\<bar> + \<bar>sum_list (map f xs) - sum_list (map g xs)\<bar>"
    by simp
  also have "\<dots> \<le> c + real (length xs) * c"
    using 1 2 by (rule add_mono)
  also have "\<dots> = real (length (x # xs)) * c"
    by (simp add: algebra_simps)
  finally show ?case .
qed

text \<open>
  Claim C8 says that the term frequencies stored for a document sum to exactly 1. The
  stored frequencies are doubles: the document \<^verbatim>\<open>alpha beta gamma delta epsilon zeta\<close>
  has six postings, each with the double nearest to one sixth, and these sum to
  \<open>1 - 2\<^sup>-\<^sup>5\<^sup>4\<close>. And a second build on a built engine adds every posting once more:
  the postings of document 2 of the example corpus then sum to 2.
\<close>

theorem term_frequency_sum_counterexample:
  "build_index six_words_env (init ''articles'' ''metadata.csv'')
     = Inr (six_words_engine, save_index ''index.pkl'' six_words_engine six_words_env)
   \<and> preprocess_text ''alpha beta gamma delta epsilon zeta''
       = [''alpha'', ''beta'', ''gamma'', ''delta'', ''epsilon'', ''zeta'']
   \<and> sum_list (map snd (postings_of_document (inverted_index six_words_engine) 1))
       = 1 - 1 / 2 ^ 54
   \<and> build_index example_env example_engine
       = Inr (example_rebuilt, save_index ''index.pkl'' example_rebuilt example_env)
   \<and> sum_list (map snd (postings_of_document (inverted_index example_rebuilt) 2)) = 2"
proof -
  have 1: "preprocess_text ''alpha beta gamma delta epsilon zeta''
       = [''alpha'', ''beta'', ''gamma'', ''delta'', ''epsilon'', ''zeta'']"
    by (simp add: tokenizer_defs)
  have 2: "sum_list (map snd (postings_of_document (inverted_index six_words_engine) 1))
       = 1 - 1 / 2 ^ 54"
    by (simp add: postings_of_document_def six_words_engine_def one_sixth_def)
  have 3: "sum_list (map snd (postings_of_document (inverted_index example_rebuilt) 2)) = 2"
    by (simp add: postings_of_document_def example_rebuilt_def)
  from six_words_build example_rebuild 1 2 3 show ?thesis by blast
qed

text \<open>
  Claim C8, amended: after a build on a freshly constructed engine, every document whose
  filtered token sequence is not empty has one posting for each of its distinct terms;
  the stored frequency of a term is the double nearest to its count divided by the number
  of tokens and lies between 0 and 1; these exact quotients sum to 1, and the stored
  frequencies sum to 1 up to the rounding: their sum is within \<open>k / 2\<^sup>5\<^sup>4\<close> of 1 for
  \<open>k\<close> postings.
\<close>

theorem term_frequencies_near_one:
  assumes "build_index fs (init dir file) = Inr (s, fs')"
    and "(d, content) \<in> set (documents s)"
    and "preprocess_text content \<noteq> []"
  shows "distinct (map fst (postings_of_document (inverted_index s) d))
         \<and> set (map fst (postings_of_document (inverted_index s) d)) = set (preprocess_text content)
         \<and> (\<forall>p \<in> set (postings_of_document (inverted_index s) d).
               snd p = double_quotient (count_list (preprocess_text content) (fst p))
                         (length (preprocess_text content))
               \<and> 0 \<le> snd p \<and> snd p \<le> 1)
         \<and> sum_list (map (\<lambda>p. real (count_list (preprocess_text content) (fst p))
                                / real (length (preprocess_text content)))
                      (postings_of_document (inverted_index s) d)) = 1
         \<and> \<bar>sum_list (map snd (postings_of_document (inverted_index s) d)) - 1\<bar>
             \<le> real (length (postings_of_document (inverted_index s) d)) / 2 ^ 54"
proof -
  note b = build_index_fresh [OF assms(1)]
  let ?docs = "documents s"
  let ?ws = "preprocess_text content"
  let ?T = "filter (\<lambda>t. t \<in> set ?ws) (map fst (index_documents [] ?docs))"
  let ?tf = "\<lambda>t. double_quotient (count_list ?ws t) (length ?ws)"
  let ?ex = "\<lambda>t. real (count_list ?ws t) / real (length ?ws)"
  let ?P = "postings_of_document (inverted_index s) d"
  have len: "0 < length ?ws" using assms(3) by simp
  have pd: "?P = map (\<lambda>t. (t, ?tf t)) ?T"
    using postings_of_document_fresh [OF b(1) assms(2)] assms(3)
    by (simp add: b(4) term_frequency_def)
  have dT: "distinct ?T"
    by (intro distinct_filter distinct_index_documents) simp
  have sT: "set ?T = set ?ws"
    using postings_for_member [OF assms(2)] by (auto simp: fresh_index_keys)
  have keys: "map fst ?P = ?T"
    by (simp add: pd comp_def)
  have vals: "map snd ?P = map ?tf ?T"
    by (simp add: pd comp_def)
  have exact: "map (\<lambda>p. ?ex (fst p)) ?P = map ?ex ?T"
    by (simp add: pd comp_def)
  have "sum_list (map ?ex ?T) = sum ?ex (set ?T)"
    using dT by (rule sum_list_distinct_conv_sum_set)
  also have "\<dots> = sum ?ex (set ?ws)"
    by (simp only: sT)
  also have "\<dots> = (\<Sum>t \<in> set ?ws. real (count_list ?ws t)) / real (length ?ws)"
    by (simp add: sum_divide_distrib)
  also have "(\<Sum>t \<in> set ?ws. real (count_list ?ws t)) = real (sum (count_list ?ws) (set ?ws))"
    by simp
  also have "sum (count_list ?ws) (set ?ws) = length ?ws"
    by (rule sum_count_set) simp_all
  finally have total: "sum_list (map ?ex ?T) = 1"
    using assms(3) by simp
  have "\<forall>t \<in> set ?T. \<bar>?tf t - ?ex t\<bar> \<le> 1 / 2 ^ 54"
  proof
    fix t
    have "count_list ?ws t \<le> length ?ws" by (rule count_le_length)
    from double_quotient_error [OF this len] show "\<bar>?tf t - ?ex t\<bar> \<le> 1 / 2 ^ 54" .
  qed
  from sum_list_close [OF this]
  have "\<bar>sum_list (map ?tf ?T) - sum_list (map ?ex ?T)\<bar> \<le> real (length ?T) * (1 / 2 ^ 54)" .
  then have "\<bar>sum_list (map ?tf ?T) - 1\<bar> \<le> real (length ?T) / 2 ^ 54"
    by (simp only: total times_divide_eq_right mult_1_right)
  moreover have "length ?P = length ?T"
    using arg_cong [OF keys, of length] by (simp only: length_map)
  ultimately have near: "\<bar>sum_list (map snd ?P) - 1\<bar> \<le> real (length ?P) / 2 ^ 54"
    by (simp only: vals)
  have each: "\<forall>p \<in> set ?P. snd p = ?tf (fst p) \<and> 0 \<le> snd p \<and> snd p \<le> 1"
  proof
    fix p assume "p \<in> set ?P"
    then obtain t where p: "p = (t, ?tf t)" by (auto simp: pd)
    have "count_list ?ws t \<le> length ?ws" by (rule count_le_length)
    from double_quotient_le_one [OF this len] double_quotient_nonneg [of "count_list ?ws t" "length ?ws"]
    show "snd p = ?tf (fst p) \<and> 0 \<le> snd p \<and> snd p \<le> 1"
      by (simp add: p)
  qed
  have ex1: "sum_list (map (\<lambda>p. ?ex (fst p)) ?P) = 1"
    by (simp only: exact total)
  from dT sT each ex1 near show ?thesis
    by (simp only: keys)
qed

theorem term_frequencies_near_one_witness:
  "build_index six_words_env (init ''articles'' ''metadata.csv'')
     = Inr (six_words_engine, save_index ''index.pkl'' six_words_engine six_words_env)
   \<and> (1, ''alpha beta gamma delta epsilon zeta'') \<in> set (documents six_words_engine)
   \<and> preprocess_text ''alpha beta gamma delta epsilon zeta'' \<noteq> []
   \<and> length (postings_of_document (inverted_index six_words_engine) 1) = 6
   \<and> \<bar>sum_list (map snd (postings_of_document (inverted_index six_words_engine) 1)) - 1\<bar>
       \<le> real (length (postings_of_document (inverted_index six_words_engine) 1)) / 2 ^ 54"
proof -
  have m: "(1, ''alpha beta gamma delta epsilon zeta'') \<in> set (documents six_words_engine)"
    by (simp add: six_words_engine_def)
  have n: "preprocess_text ''alpha beta gamma delta epsilon zeta'' \<noteq> []"
    by (simp add: tokenizer_defs)
  have l: "length (postings_of_document (inverted_index six_words_engine) 1) = 6"
    by (simp add: postings_of_document_def six_words_engine_def)
  from term_frequencies_near_one [OF six_words_build m n] six_words_build m n l show ?thesis
    by blast
qed

section \<open>Scoring\<close>

lemma vector_length_sum_squares: "vector_length vec = sqrt (sum_squares vec)"
  by (simp add: vector_length_def sum_squares_def)

lemma sum_squares_nonneg: "0 \<le> sum_squares vec"
  by (auto simp: sum_squares_def intro!: sum_list_nonneg)

lemma vector_length_nonneg: "0 \<le> vector_length vec"
  by (simp add: vector_length_sum_squares sum_squares_nonneg)

lemma dot_score_Cons_unfold:
  "map_of dv d = Some vec \<Longrightarrow> dot_score dv d sc qv = Inr (sc + dot_product qv vec)"
proof (induction qv arbitrary: sc)
  case Nil
  then show ?case by (simp add: dot_product_def)
next
  case (Cons e qv)
  obtain t qw where e: "e = (t, qw)" by (cases e)
  have "dot_product (e # qv) vec
          = (case map_of vec t of None \<Rightarrow> 0 | Some w \<Rightarrow> qw * w) + dot_product qv vec"
    by (simp add: dot_product_def e)
  then show ?case
    using Cons by (simp add: e dict_get_def split: option.splits)
qed

lemma document_score_eq:
  assumes "map_of (doc_vectors s) d = Some vec" and "map_of (doc_lengths s) d = Some len"
  shows "document_score s qv ql d =
           Inr (if len > 0 \<and> ql > 0 then dot_product qv vec / (len * ql) else dot_product qv vec)"
  by (simp add: document_score_def dot_score_Cons_unfold [OF assms(1)] dict_get_def assms(2))

lemma score_documents_none:
  "\<forall>doc \<in> set docs. \<exists>sc. document_score s qv ql (fst doc) = Inr sc \<and> \<not> 0 < sc \<Longrightarrow>
   score_documents s qv ql scores docs = Inr scores"
  by (induction docs) auto

lemma score_documents_entries:
  "score_documents s qv ql scores docs = Inr scores' \<Longrightarrow> e \<in> set scores' \<Longrightarrow>
   e \<in> set scores \<or>
   (fst e \<in> fst ` set docs \<and> document_score s qv ql (fst e) = Inr (snd e) \<and> 0 < snd e)"
proof (induction docs arbitrary: scores)
  case Nil
  then show ?case by simp
next
  case (Cons doc docs)
  obtain d content where doc: "doc = (d, content)" by (cases doc)
  from Cons.prems(1) obtain sc where
    sc: "document_score s qv ql d = Inr sc" and
    r: "score_documents s qv ql (if 0 < sc then dict_set scores d sc else scores) docs = Inr scores'"
    by (auto simp: doc split: sum.splits)
  from Cons.IH [OF r Cons.prems(2)] consider
    "e \<in> set (if 0 < sc then dict_set scores d sc else scores)"
    | "fst e \<in> fst ` set docs \<and> document_score s qv ql (fst e) = Inr (snd e) \<and> 0 < snd e"
    by blast
  then show ?case
  proof cases
    case 1
    then have "e \<in> set scores \<or> (0 < sc \<and> e = (d, sc))"
      using set_dict_set [of scores d sc] by (auto split: if_splits)
    then show ?thesis using sc by (auto simp: doc)
  next
    case 2
    then show ?thesis by (auto simp: doc)
  qed
qed

lemma score_documents_keys:
  "score_documents s qv ql scores docs = Inr scores' \<Longrightarrow>
   subseq (map fst scores') (map fst scores @ map fst docs)"
proof (induction docs arbitrary: scores)
  case Nil
  then show ?case by simp
next
  case (Cons doc docs)
  obtain d content where doc: "doc = (d, content)" by (cases doc)
  from Cons.prems(1) obtain sc where
    r: "score_documents s qv ql (if 0 < sc then dict_set scores d sc else scores) docs = Inr scores'"
    by (auto simp: doc split: sum.splits)
  let ?sc1 = "if 0 < sc then dict_set scores d sc else scores"
  have "subseq (map fst ?sc1) (map fst scores @ [d])"
    by (auto simp: keys_dict_set)
  then have "subseq (map fst ?sc1 @ map fst docs) ((map fst scores @ [d]) @ map fst docs)"
    by (intro list_emb_append_mono) simp_all
  with Cons.IH [OF r] have "subseq (map fst scores') ((map fst scores @ [d]) @ map fst docs)"
    by (rule subseq_order.trans)
  then show ?case by (simp add: doc)
qed

section \<open>The order of the results\<close>

lemma sorted_reverse_descending: "sorted_wrt (\<lambda>x y. snd y \<le> snd x) (sorted_reverse items)"
proof -
  have "sorted (map snd (sort_key snd (rev items)))" by simp
  then have "sorted_wrt (\<lambda>x y. snd x \<le> snd y) (sort_key snd (rev items))"
    by (simp add: sorted_wrt_map)
  then show ?thesis
    by (simp add: sorted_reverse_def sorted_wrt_rev)
qed

lemma sorted_reverse_stable:
  "filter (\<lambda>x. snd x = c) (sorted_reverse items) = filter (\<lambda>x. snd x = c) items"
proof -
  have "filter (\<lambda>x. snd x = c) (sorted_reverse items)
          = rev (filter (\<lambda>x. snd x = c) (sort_key snd (rev items)))"
    by (simp add: sorted_reverse_def rev_filter)
  also have "\<dots> = rev (filter (\<lambda>x. snd x = c) (rev items))"
    by (simp only: sort_key_stable)
  also have "\<dots> = filter (\<lambda>x. snd x = c) items"
    by (simp add: rev_filter)
  finally show ?thesis .
qed

lemma set_sorted_reverse: "set (sorted_reverse items) = set items"
  by (simp add: sorted_reverse_def)

lemma slice_to_take: "\<exists>n. slice_to k xs = take n xs"
  by (auto simp: slice_to_def)

lemma subseq_filter_take: "subseq (filter P (take n xs)) (filter P xs)"
proof -
  have "subseq (take n xs) (take n xs @ drop n xs)"
    by (rule list_emb_prefix) simp
  then have "subseq (take n xs) xs" by simp
  then show ?thesis by (rule subseq_filter)
qed

text \<open>
  Claim C1 says that results with equal score come in ascending order of document id.
  The source sorts by score alone: in the example corpus, whose documents were loaded in
  the order 2, 1, 3, the query \<^verbatim>\<open>alpha\<close> returns document 2 before document 1, both
  with score 1.
\<close>

theorem tie_order_counterexample:
  "map (\<lambda>r. (doc_id r, score r))
     (case search example_engine ''alpha'' 10 of Inl e \<Rightarrow> [] | Inr rs \<Rightarrow> rs)
     = [(2, 1), (1, 1)]"
  by (simp add: example_search)

text \<open>
  Claim C1, amended: the sequence returned by \<^verbatim>\<open>search\<close> is sorted by score in
  descending order, and the results that have one and the same score appear in the order
  in which their documents stand in \<^verbatim>\<open>self.documents\<close>, the order of loading: their
  document ids form a subsequence of the document ids of the corpus.
\<close>

theorem search_sorted_stable:
  assumes "search s query top_k = Inr rs"
  shows "sorted_wrt (\<lambda>r r'. score r' \<le> score r) rs
         \<and> subseq (map doc_id (filter (\<lambda>r. score r = c) rs)) (map fst (documents s))"
proof (cases "rs = []")
  case True
  then show ?thesis by simp
next
  case False
  from search_results_from [OF assms False] obtain scores where
    sd: "score_documents s (query_vector_of s (preprocess_text query))
             (vector_length (query_vector_of s (preprocess_text query))) [] (documents s)
             = Inr scores" and
    mr: "make_results s (preprocess_text query) (slice_to top_k (sorted_reverse scores)) = Inr rs"
    by blast
  obtain n where n: "slice_to top_k (sorted_reverse scores) = take n (sorted_reverse scores)"
    using slice_to_take by blast
  let ?xs = "take n (sorted_reverse scores)"
  have keys: "map (\<lambda>r. (doc_id r, score r)) rs = ?xs"
    using make_results_keys [OF mr] by (simp add: n)
  have "sorted_wrt (\<lambda>x y. snd y \<le> snd x) ?xs"
    by (intro sorted_wrt_take sorted_reverse_descending)
  then have "sorted_wrt (\<lambda>x y. snd y \<le> snd x) (map (\<lambda>r. (doc_id r, score r)) rs)"
    by (simp only: keys)
  then have 1: "sorted_wrt (\<lambda>r r'. score r' \<le> score r) rs"
    by (simp add: sorted_wrt_map)
  have "map doc_id (filter (\<lambda>r. score r = c) rs)
          = map fst (filter (\<lambda>x. snd x = c) (map (\<lambda>r. (doc_id r, score r)) rs))"
    by (simp add: filter_map comp_def)
  also have "\<dots> = map fst (filter (\<lambda>x. snd x = c) ?xs)"
    by (simp only: keys)
  finally have eq: "map doc_id (filter (\<lambda>r. score r = c) rs)
                      = map fst (filter (\<lambda>x. snd x = c) ?xs)" .
  have "subseq (filter (\<lambda>x. snd x = c) ?xs) (filter (\<lambda>x. snd x = c) (sorted_reverse scores))"
    by (rule subseq_filter_take)
  then have "subseq (filter (\<lambda>x. snd x = c) ?xs) (filter (\<lambda>x. snd x = c) scores)"
    by (simp only: sorted_reverse_stable)
  then have "subseq (filter (\<lambda>x. snd x = c) ?xs) scores"
    using subseq_filter_left subseq_order.trans by blast
  then have "subseq (map fst (filter (\<lambda>x. snd x = c) ?xs)) (map fst scores)"
    by (rule subseq_map)
  moreover have "subseq (map fst scores) (map fst (documents s))"
    using score_documents_keys [OF sd] by simp
  ultimately have 2: "subseq (map doc_id (filter (\<lambda>r. score r = c) rs)) (map fst (documents s))"
    unfolding eq by (rule subseq_order.trans)
  from 1 2 show ?thesis by blast
qed

theorem search_sorted_stable_witness:
  "search example_engine ''alpha'' 10 =
     Inr [\<lparr>doc_id = 2, score = 1, title = Some ''Second'', summary = ''alpha.'',
            url = Some ''http://x/b.txt'', date = Some ''2024''\<rparr>,
          \<lparr>doc_id = 1, score = 1, title = Some ''First'', summary = ''alpha.'',
            url = Some ''http://x/a.txt'', date = Some ''2024''\<rparr>]
   \<and> subseq [2, 1] (map fst (documents example_engine))"
  using search_sorted_stable [OF example_search, of 1] example_search
  by simp

section \<open>The query vector\<close>

lemma distinct_build_query_vector:
  "distinct (map fst qv) \<Longrightarrow> distinct (map fst (build_query_vector idf n qv wc))"
  by (induction wc arbitrary: qv) (auto simp: distinct_dict_set split: option.splits)

lemma build_query_vector_entries:
  "e \<in> set (build_query_vector idf n qv wc) \<Longrightarrow>
   e \<in> set qv \<or>
   (\<exists>c i. (fst e, c) \<in> set wc \<and> map_of idf (fst e) = Some i \<and> snd e = double_quotient c n * i)"
proof (induction wc arbitrary: qv)
  case Nil
  then show ?case by simp
next
  case (Cons p wc)
  obtain t c where p: "p = (t, c)" by (cases p)
  show ?case
  proof (cases "map_of idf t")
    case None
    with Cons.prems have "e \<in> set (build_query_vector idf n qv wc)"
      by (simp add: p)
    from Cons.IH [OF this] consider "e \<in> set qv"
      | c' i' where "(fst e, c') \<in> set wc" "map_of idf (fst e) = Some i'"
          "snd e = double_quotient c' n * i'"
      by blast
    then show ?thesis
    proof cases
      case 1
      then show ?thesis by simp
    next
      case 2
      then have "(fst e, c') \<in> set (p # wc)" by simp
      with 2 show ?thesis by blast
    qed
  next
    case (Some i)
    with Cons.prems have "e \<in> set (build_query_vector idf n (dict_set qv t (double_quotient c n * i)) wc)"
      by (simp add: p)
    from Cons.IH [OF this] consider "e \<in> set (dict_set qv t (double_quotient c n * i))"
      | c' i' where "(fst e, c') \<in> set wc" "map_of idf (fst e) = Some i'"
          "snd e = double_quotient c' n * i'"
      by blast
    then show ?thesis
    proof cases
      case 1
      then consider "e \<in> set qv" | "e = (t, double_quotient c n * i)"
        using set_dict_set [of qv t "double_quotient c n * i"] by blast
      then show ?thesis
      proof cases
        case 1
        then show ?thesis by simp
      next
        case 2
        then have "(fst e, c) \<in> set (p # wc)" "map_of idf (fst e) = Some i"
          "snd e = double_quotient c n * i"
          using Some by (simp_all add: p)
        then show ?thesis by blast
      qed
    next
      case 2
      then have "(fst e, c') \<in> set (p # wc)" by simp
      with 2 show ?thesis by blast
    qed
  qed
qed

lemma build_query_vector_keeps: "qv \<noteq> [] \<Longrightarrow> build_query_vector idf n qv wc \<noteq> []"
proof (induction wc arbitrary: qv)
  case Nil
  then show ?case by simp
next
  case (Cons p wc)
  obtain t c where p: "p = (t, c)" by (cases p)
  show ?case
  proof (cases "map_of idf t")
    case None
    with Cons.IH [OF Cons.prems] show ?thesis by (simp add: p)
  next
    case (Some i)
    have "dict_set qv t (double_quotient c n * i) \<noteq> []" by (rule dict_set_not_Nil)
    from Cons.IH [OF this] Some show ?thesis by (simp add: p)
  qed
qed

lemma build_query_vector_not_Nil:
  "(t, c) \<in> set wc \<Longrightarrow> map_of idf t \<noteq> None \<Longrightarrow> build_query_vector idf n qv wc \<noteq> []"
proof (induction wc arbitrary: qv)
  case Nil
  then show ?case by simp
next
  case (Cons p wc)
  obtain t' c' where p: "p = (t', c')" by (cases p)
  show ?case
  proof (cases "map_of idf t'")
    case None
    with Cons.prems have "(t, c) \<in> set wc" by (auto simp: p)
    from Cons.IH [OF this Cons.prems(2)] None show ?thesis by (simp add: p)
  next
    case (Some i)
    have "dict_set qv t' (double_quotient c' n * i) \<noteq> []" by (rule dict_set_not_Nil)
    from build_query_vector_keeps [OF this] Some show ?thesis by (simp add: p)
  qed
qed

lemma query_vector_entries:
  assumes "e \<in> set (query_vector_of s ts)"
  shows "fst e \<in> set ts \<and>
         (\<exists>i. map_of (idf_values s) (fst e) = Some i
              \<and> snd e = double_quotient (count_list ts (fst e)) (length ts) * i)"
proof -
  from build_query_vector_entries [OF assms [unfolded query_vector_of_def]]
  obtain c i where c: "(fst e, c) \<in> set (count_words [] ts)"
    and i: "map_of (idf_values s) (fst e) = Some i" and e: "snd e = double_quotient c (length ts) * i"
    by auto
  from c have "fst e \<in> set ts" "c = count_list ts (fst e)"
    by (simp_all add: count_words_entry)
  with i e show ?thesis by simp
qed

lemma distinct_query_vector: "distinct (map fst (query_vector_of s ts))"
  by (simp add: query_vector_of_def distinct_build_query_vector)

lemma built_query_vector_nonneg:
  assumes "build_index fs (init dir file) = Inr (s, fs')"
    and "e \<in> set (query_vector_of s ts)"
  shows "0 \<le> snd e"
proof -
  from query_vector_entries [OF assms(2)] obtain i where
    i: "map_of (idf_values s) (fst e) = Some i"
    and e: "snd e = double_quotient (count_list ts (fst e)) (length ts) * i"
    by blast
  note b = build_index_fresh [OF assms(1)]
  have "map_of (idf_values s) (fst e) =
           (if postings_for (fst e) (documents s) = [] then None
            else Some (ln (real (N s) / real (length (postings_for (fst e) (documents s))))))"
    by (rule built_idf [OF assms(1)])
  with i have ne: "postings_for (fst e) (documents s) \<noteq> []"
    and iv: "i = ln (real (N s) / real (length (postings_for (fst e) (documents s))))"
    by (simp_all split: if_splits)
  have "0 \<le> ln (real (length (documents s))
                  / real (length (postings_for (fst e) (documents s))))"
    using ne by (intro idf_nonneg) simp_all
  then have "0 \<le> i"
    by (simp add: iv b(3))
  then show ?thesis
    using double_quotient_nonneg [of "count_list ts (fst e)" "length ts"] by (simp add: e)
qed


section \<open>Search on a built index returns\<close>

lemma make_results_ok:
  "\<forall>x \<in> set xs. map_of (documents s) (fst x) \<noteq> None \<and> map_of (metadata s) (fst x) \<noteq> None \<Longrightarrow>
   \<exists>rs. make_results s ts xs = Inr rs"
proof (induction xs)
  case Nil
  then show ?case by simp
next
  case (Cons x xs)
  obtain d sc where x: "x = (d, sc)" by (cases x)
  from Cons.prems obtain content m where
    "map_of (documents s) d = Some content" "map_of (metadata s) d = Some m"
    by (auto simp: x)
  moreover from Cons.IH Cons.prems obtain rs where "make_results s ts xs = Inr rs"
    by auto
  ultimately show ?case by (simp add: x dict_get_def)
qed

lemma map_of_present: "k \<in> fst ` set d \<Longrightarrow> map_of d k \<noteq> None"
  by (simp add: map_of_eq_None_iff)

lemma built_document_score:
  assumes "build_index fs (init dir file) = Inr (s, fs')" and "d \<in> fst ` set (documents s)"
  shows "\<exists>vec. map_of (doc_vectors s) d = Some vec
           \<and> map_of (doc_lengths s) d = Some (vector_length vec)
           \<and> distinct (map fst vec) \<and> (\<forall>e \<in> set vec. 0 \<le> snd e)
           \<and> document_score s qv ql d =
               Inr (if vector_length vec > 0 \<and> ql > 0
                    then dot_product qv vec / (vector_length vec * ql) else dot_product qv vec)"
proof -
  note v = built_vectors [OF assms(1)]
  from v(2) assms(2) obtain vec where vec: "map_of (doc_vectors s) d = Some vec"
    by auto
  with v(1) have len: "map_of (doc_lengths s) d = Some (vector_length vec)"
    and good: "distinct (map fst vec)" "\<forall>e \<in> set vec. 0 \<le> snd e"
    by blast+
  from document_score_eq [OF vec len] vec len good show ?thesis by blast
qed

lemma built_search_returns:
  assumes "build_index fs (init dir file) = Inr (s, fs')"
  shows "\<exists>rs. search s query top_k = Inr rs"
proof -
  let ?ts = "preprocess_text query"
  let ?qv = "query_vector_of s ?ts"
  note b = build_index_fresh [OF assms]
  have "\<exists>scores. score_documents s ?qv (vector_length ?qv) sc0 docs = Inr scores"
    if "set docs \<subseteq> set (documents s)" for docs sc0
    using that
  proof (induction docs arbitrary: sc0)
    case Nil
    then show ?case by simp
  next
    case (Cons doc docs)
    then have "fst doc \<in> fst ` set (documents s)" by auto
    from built_document_score [OF assms this, of ?qv "vector_length ?qv"]
    obtain sc where "document_score s ?qv (vector_length ?qv) (fst doc) = Inr sc"
      by blast
    moreover from Cons have "\<And>sc0. \<exists>scores. score_documents s ?qv (vector_length ?qv) sc0 docs = Inr scores"
      by simp
    ultimately show ?case by (cases doc) simp
  qed
  from this [of "documents s" "[]"] obtain scores where
    sd: "score_documents s ?qv (vector_length ?qv) [] (documents s) = Inr scores"
    by auto
  have "\<forall>x \<in> set (slice_to top_k (sorted_reverse scores)).
          map_of (documents s) (fst x) \<noteq> None \<and> map_of (metadata s) (fst x) \<noteq> None"
  proof
    fix x assume "x \<in> set (slice_to top_k (sorted_reverse scores))"
    moreover obtain n where "slice_to top_k (sorted_reverse scores) = take n (sorted_reverse scores)"
      using slice_to_take by blast
    ultimately have "x \<in> set (take n (sorted_reverse scores))" by simp
    then have "x \<in> set (sorted_reverse scores)" by (rule in_set_takeD)
    then have "x \<in> set scores" by (simp only: set_sorted_reverse)
    from score_documents_entries [OF sd this] have "fst x \<in> fst ` set (documents s)"
      by simp
    then show "map_of (documents s) (fst x) \<noteq> None \<and> map_of (metadata s) (fst x) \<noteq> None"
      using b(2) by (simp add: map_of_present)
  qed
  from make_results_ok [OF this] obtain rs where
    "make_results s ?ts (slice_to top_k (sorted_reverse scores)) = Inr rs"
    by blast
  with sd show ?thesis
    by (simp add: search_def Let_def)
qed

section \<open>Queries whose terms all have IDF 0\<close>

lemma shared_term_build:
  "build_index shared_term_env (init ''articles'' ''metadata.csv'') =
     Inr (shared_term_engine, save_index ''index.pkl'' shared_term_engine shared_term_env)"
  by (simp add: build_index_def shared_term_env_def init_def shared_term_engine_def
      example_meta_def loader_defs tokenizer_defs builder_defs numeral_2_eq_2)

lemma vector_length_zero: "\<forall>e \<in> set vec. snd e = 0 \<Longrightarrow> vector_length vec = 0"
proof -
  assume z: "\<forall>e \<in> set vec. snd e = 0"
  have "map (\<lambda>(t, val). val ^ 2) vec = map (\<lambda>e. 0::real) vec"
    using z by (intro map_cong) auto
  then have "sum_squares vec = sum_list (map (\<lambda>e. 0::real) vec)"
    unfolding sum_squares_def by (rule arg_cong)
  then have "sum_squares vec = 0" by simp
  then show ?thesis by (simp add: vector_length_sum_squares)
qed

lemma dot_product_zero: "\<forall>e \<in> set qv. snd e = 0 \<Longrightarrow> dot_product qv vec = 0"
proof -
  assume z: "\<forall>e \<in> set qv. snd e = 0"
  have "map (\<lambda>(t, qw). case map_of vec t of None \<Rightarrow> 0 | Some w \<Rightarrow> qw * w) qv
          = map (\<lambda>e. 0::real) qv"
    using z by (intro map_cong) (auto split: option.splits)
  then have "dot_product qv vec = sum_list (map (\<lambda>e. 0::real) qv)"
    unfolding dot_product_def by (rule arg_cong)
  then show ?thesis by simp
qed

text \<open>
  Claim C10 says that on every built index a query whose tokens are all in the vocabulary
  and each occur in every document has a query vector of zero weights and gets the empty
  result list. On an index built a second time on the same engine the posting list of
  \<^verbatim>\<open>alpha\<close> has four postings for two documents, its IDF value is \<open>ln (1 / 2)\<close> and not
  0, and the query \<^verbatim>\<open>Alpha\<close> gets both documents, each with score 1.
\<close>

theorem rebuilt_zero_idf_counterexample:
  "build_index shared_term_env shared_term_engine
     = Inr (shared_term_rebuilt, save_index ''index.pkl'' shared_term_rebuilt shared_term_env)
   \<and> preprocess_text ''Alpha'' = [''alpha'']
   \<and> dict_contains (idf_values shared_term_rebuilt) ''alpha''
   \<and> preprocess_text (the (map_of (documents shared_term_rebuilt) 1)) = [''alpha'']
   \<and> preprocess_text (the (map_of (documents shared_term_rebuilt) 2)) = [''alpha'']
   \<and> map fst (documents shared_term_rebuilt) = [1, 2]
   \<and> query_vector_of shared_term_rebuilt (preprocess_text ''Alpha'') = [(''alpha'', ln (1 / 2))]
   \<and> vector_length (query_vector_of shared_term_rebuilt (preprocess_text ''Alpha'')) \<noteq> 0
   \<and> map (\<lambda>r. (doc_id r, score r))
        (case search shared_term_rebuilt ''Alpha'' 10 of Inl e \<Rightarrow> [] | Inr rs \<Rightarrow> rs)
       = [(1, 1), (2, 1)]"
proof -
  have p: "preprocess_text ''Alpha'' = [''alpha'']"
    by (simp add: tokenizer_defs)
  have c: "dict_contains (idf_values shared_term_rebuilt) ''alpha''"
    by (simp add: shared_term_rebuilt_def dict_contains_def)
  have d: "preprocess_text (the (map_of (documents shared_term_rebuilt) 1)) = [''alpha'']
      \<and> preprocess_text (the (map_of (documents shared_term_rebuilt) 2)) = [''alpha'']
      \<and> map fst (documents shared_term_rebuilt) = [1, 2]"
    by (simp add: shared_term_rebuilt_def tokenizer_defs)
  have q: "query_vector_of shared_term_rebuilt (preprocess_text ''Alpha'') = [(''alpha'', ln (1 / 2))]"
    by (simp add: p query_vector_of_def shared_term_rebuilt_def dict_get_default_def
        double_quotient_self)
  have "ln (1 / 2) \<noteq> (0::real)"
    by simp
  then have l: "vector_length (query_vector_of shared_term_rebuilt (preprocess_text ''Alpha'')) \<noteq> 0"
    by (simp add: q vector_length_def)
  have r: "map (\<lambda>r. (doc_id r, score r))
        (case search shared_term_rebuilt ''Alpha'' 10 of Inl e \<Rightarrow> [] | Inr rs \<Rightarrow> rs)
       = [(1, 1), (2, 1)]"
    by (simp add: shared_term_rebuilt_search)
  from shared_term_rebuild p c d q l r show ?thesis by blast
qed

text \<open>
  Claim C10, amended: on an index built on a freshly constructed engine, for a query whose
  surviving tokens are not empty, are all in the vocabulary and each occur in every
  document, the query vector is not empty, all its weights are 0, its norm is 0, and
  \<^verbatim>\<open>search\<close> returns the empty list instead of failing.
\<close>

theorem zero_idf_query_returns_nothing:
  assumes "build_index fs (init dir file) = Inr (s, fs')"
    and "preprocess_text query \<noteq> []"
    and "\<forall>t \<in> set (preprocess_text query). dict_contains (idf_values s) t"
    and "\<forall>t \<in> set (preprocess_text query).
           \<forall>doc \<in> set (documents s). t \<in> set (preprocess_text (snd doc))"
  shows "query_vector_of s (preprocess_text query) \<noteq> []
         \<and> (\<forall>e \<in> set (query_vector_of s (preprocess_text query)). snd e = 0)
         \<and> vector_length (query_vector_of s (preprocess_text query)) = 0
         \<and> search s query top_k = Inr []"
proof -
  let ?ts = "preprocess_text query"
  let ?qv = "query_vector_of s ?ts"
  note b = build_index_fresh [OF assms(1)]
  from assms(2) obtain t0 where t0: "t0 \<in> set ?ts" by (cases ?ts) auto
  then have "(t0, count_list ?ts t0) \<in> set (count_words [] ?ts)"
    by (simp add: count_words_entry)
  moreover from assms(3) t0 have "map_of (idf_values s) t0 \<noteq> None"
    by (simp add: dict_contains_def)
  ultimately have ne: "?qv \<noteq> []"
    unfolding query_vector_of_def by (rule build_query_vector_not_Nil)
  have zero: "\<forall>e \<in> set ?qv. snd e = 0"
  proof
    fix e assume "e \<in> set ?qv"
    from query_vector_entries [OF this] obtain i where
      t: "fst e \<in> set ?ts" and i: "map_of (idf_values s) (fst e) = Some i"
      and e: "snd e = double_quotient (count_list ?ts (fst e)) (length ?ts) * i"
      by blast
    let ?ps = "postings_for (fst e) (documents s)"
    have "map_of (idf_values s) (fst e) =
           (if ?ps = [] then None else Some (ln (real (N s) / real (length ?ps))))"
      by (rule built_idf [OF assms(1)])
    with i have ps: "?ps \<noteq> []" and iv: "i = ln (real (N s) / real (length ?ps))"
      by (simp_all split: if_splits)
    from assms(4) t have "\<forall>doc \<in> set (documents s). fst e \<in> set (preprocess_text (snd doc))"
      by blast
    then have "length ?ps = N s"
      by (simp add: length_postings_for_all b(3))
    moreover have "0 < length ?ps" using ps by simp
    ultimately have "i = 0" by (simp add: iv)
    then show "snd e = 0" by (simp add: e)
  qed
  have len: "vector_length ?qv = 0"
    using zero by (rule vector_length_zero)
  have "\<forall>doc \<in> set (documents s).
          \<exists>sc. document_score s ?qv (vector_length ?qv) (fst doc) = Inr sc \<and> \<not> 0 < sc"
  proof
    fix doc assume "doc \<in> set (documents s)"
    then have "fst doc \<in> fst ` set (documents s)" by simp
    from built_document_score [OF assms(1) this, of ?qv "vector_length ?qv"]
    obtain vec where
      "document_score s ?qv (vector_length ?qv) (fst doc) =
         Inr (if vector_length vec > 0 \<and> vector_length ?qv > 0
              then dot_product ?qv vec / (vector_length vec * vector_length ?qv)
              else dot_product ?qv vec)"
      by blast
    then have "document_score s ?qv (vector_length ?qv) (fst doc) = Inr 0"
      by (simp add: len dot_product_zero [OF zero])
    then show "\<exists>sc. document_score s ?qv (vector_length ?qv) (fst doc) = Inr sc \<and> \<not> 0 < sc"
      by simp
  qed
  then have "score_documents s ?qv (vector_length ?qv) [] (documents s) = Inr []"
    by (rule score_documents_none)
  then have "search s query top_k = Inr []"
    using assms(2) ne by (simp add: search_def Let_def sorted_reverse_def slice_to_def)
  with ne zero len show ?thesis by blast
qed

theorem zero_idf_query_returns_nothing_witness:
  "build_index shared_term_env (init ''articles'' ''metadata.csv'')
     = Inr (shared_term_engine, save_index ''index.pkl'' shared_term_engine shared_term_env)
   \<and> preprocess_text ''Alpha'' = [''alpha'']
   \<and> dict_contains (idf_values shared_term_engine) ''alpha''
   \<and> query_vector_of shared_term_engine (preprocess_text ''Alpha'') \<noteq> []
   \<and> vector_length (query_vector_of shared_term_engine (preprocess_text ''Alpha'')) = 0
   \<and> search shared_term_engine ''Alpha'' 10 = Inr []"
proof -
  have p: "preprocess_text ''Alpha'' = [''alpha'']"
    by (simp add: tokenizer_defs)
  have ne: "preprocess_text ''Alpha'' \<noteq> []"
    by (simp add: p)
  have v: "\<forall>t \<in> set (preprocess_text ''Alpha''). dict_contains (idf_values shared_term_engine) t"
    by (simp add: p shared_term_engine_def dict_contains_def)
  have a: "\<forall>t \<in> set (preprocess_text ''Alpha'').
           \<forall>doc \<in> set (documents shared_term_engine). t \<in> set (preprocess_text (snd doc))"
    by (simp add: p) (simp add: shared_term_engine_def tokenizer_defs)
  from zero_idf_query_returns_nothing [OF shared_term_build ne v a, of 10]
    shared_term_build p v show ?thesis
    by simp
qed

section \<open>The cosine bound\<close>

lemma two_term_bound:
  fixes x y a b :: real
  assumes "0 \<le> a" and "0 \<le> b"
  shows "x * y + sqrt a * sqrt b \<le> sqrt (x\<^sup>2 + a) * sqrt (y\<^sup>2 + b)"
proof -
  let ?p = "sqrt a" and ?q = "sqrt b"
  have pa: "?p\<^sup>2 = a" and qb: "?q\<^sup>2 = b"
    using assms by simp_all
  have "0 \<le> (x * ?q - y * ?p)\<^sup>2" by simp
  also have "(x * ?q - y * ?p)\<^sup>2 = (x\<^sup>2 + ?p\<^sup>2) * (y\<^sup>2 + ?q\<^sup>2) - (x * y + ?p * ?q)\<^sup>2"
    by (simp add: power2_eq_square algebra_simps)
  finally have "(x * y + ?p * ?q)\<^sup>2 \<le> (x\<^sup>2 + a) * (y\<^sup>2 + b)"
    by (simp add: pa qb)
  then have "sqrt ((x * y + ?p * ?q)\<^sup>2) \<le> sqrt ((x\<^sup>2 + a) * (y\<^sup>2 + b))"
    by (rule real_sqrt_le_mono)
  then have "\<bar>x * y + ?p * ?q\<bar> \<le> sqrt (x\<^sup>2 + a) * sqrt (y\<^sup>2 + b)"
    by (simp add: real_sqrt_mult)
  then show ?thesis by linarith
qed

lemma sum_squares_Cons: "sum_squares ((t, w) # vec) = w\<^sup>2 + sum_squares vec"
  by (simp add: sum_squares_def)

lemma dot_product_Cons:
  "dot_product ((t, qw) # qv) vec
     = (case map_of vec t of None \<Rightarrow> 0 | Some w \<Rightarrow> qw * w) + dot_product qv vec"
  by (simp add: dot_product_def)

lemma sum_squares_remove:
  "distinct (map fst vec) \<Longrightarrow> map_of vec t = Some w \<Longrightarrow>
   sum_squares vec = w\<^sup>2 + sum_squares (filter (\<lambda>e. fst e \<noteq> t) vec)"
proof (induction vec)
  case Nil
  then show ?case by simp
next
  case (Cons e vec)
  obtain u v where e: "e = (u, v)" by (cases e)
  show ?case
  proof (cases "u = t")
    case True
    with Cons.prems have "v = w" and "t \<notin> fst ` set vec" by (auto simp: e)
    then have "filter (\<lambda>e. fst e \<noteq> t) vec = vec"
      by (auto simp: filter_id_conv)
    then show ?thesis by (simp add: e True \<open>v = w\<close> sum_squares_Cons)
  next
    case False
    with Cons.prems have "distinct (map fst vec)" "map_of vec t = Some w"
      by (auto simp: e)
    from Cons.IH [OF this] False show ?thesis
      by (simp add: e sum_squares_Cons)
  qed
qed

lemma map_of_filter_other:
  "u \<noteq> t \<Longrightarrow> map_of (filter (\<lambda>e. fst e \<noteq> t) vec) u = map_of vec u"
  by (induction vec) auto

lemma dot_product_remove:
  "t \<notin> fst ` set qv \<Longrightarrow> dot_product qv (filter (\<lambda>e. fst e \<noteq> t) vec) = dot_product qv vec"
proof (induction qv)
  case Nil
  show ?case by (simp add: dot_product_def)
next
  case (Cons e qv)
  obtain u qw where e: "e = (u, qw)" by (cases e)
  from Cons.prems have "u \<noteq> t" and "t \<notin> fst ` set qv" by (auto simp: e)
  with Cons.IH show ?case
    by (simp add: e dot_product_Cons map_of_filter_other)
qed

lemma dot_product_bound:
  "distinct (map fst qv) \<Longrightarrow> distinct (map fst vec) \<Longrightarrow>
   dot_product qv vec \<le> sqrt (sum_squares qv) * sqrt (sum_squares vec)"
proof (induction qv arbitrary: vec)
  case Nil
  show ?case by (simp add: dot_product_def sum_squares_def)
next
  case (Cons e qv)
  obtain t qw where e: "e = (t, qw)" by (cases e)
  from Cons.prems have dq: "distinct (map fst qv)" and nt: "t \<notin> fst ` set qv"
    by (auto simp: e)
  show ?case
  proof (cases "map_of vec t")
    case None
    have "dot_product (e # qv) vec = dot_product qv vec"
      by (simp add: e dot_product_Cons None)
    also have "\<dots> \<le> sqrt (sum_squares qv) * sqrt (sum_squares vec)"
      by (rule Cons.IH [OF dq Cons.prems(2)])
    also have "\<dots> \<le> sqrt (sum_squares (e # qv)) * sqrt (sum_squares vec)"
      by (intro mult_right_mono real_sqrt_le_mono)
         (simp_all add: e sum_squares_Cons sum_squares_nonneg)
    finally show ?thesis .
  next
    case (Some w)
    let ?vec' = "filter (\<lambda>e. fst e \<noteq> t) vec"
    have dv': "distinct (map fst ?vec')"
      using Cons.prems(2) by (simp add: distinct_map_filter)
    have "dot_product (e # qv) vec = qw * w + dot_product qv ?vec'"
      by (simp add: e dot_product_Cons Some dot_product_remove [OF nt])
    also have "\<dots> \<le> qw * w + sqrt (sum_squares qv) * sqrt (sum_squares ?vec')"
      using Cons.IH [OF dq dv'] by simp
    also have "\<dots> \<le> sqrt (qw\<^sup>2 + sum_squares qv) * sqrt (w\<^sup>2 + sum_squares ?vec')"
      by (intro two_term_bound sum_squares_nonneg)
    also have "\<dots> = sqrt (sum_squares (e # qv)) * sqrt (sum_squares vec)"
      by (simp add: e sum_squares_Cons sum_squares_remove [OF Cons.prems(2) Some])
    finally show ?thesis .
  qed
qed

lemma dot_product_nonneg:
  "\<forall>e \<in> set qv. 0 \<le> snd e \<Longrightarrow> \<forall>e \<in> set vec. 0 \<le> snd e \<Longrightarrow> 0 \<le> dot_product qv vec"
proof -
  assume q: "\<forall>e \<in> set qv. 0 \<le> snd e" and v: "\<forall>e \<in> set vec. 0 \<le> snd e"
  have "0 \<le> (case map_of vec t of None \<Rightarrow> 0 | Some w \<Rightarrow> qw * w)" if "(t, qw) \<in> set qv" for t qw
  proof (cases "map_of vec t")
    case None
    then show ?thesis by simp
  next
    case (Some w)
    then have "(t, w) \<in> set vec" by (rule map_of_SomeD)
    with v have "0 \<le> w" by auto
    moreover from q that have "0 \<le> qw" by auto
    ultimately show ?thesis by (simp add: Some)
  qed
  then show ?thesis
    unfolding dot_product_def by (intro sum_list_nonneg) auto
qed

lemma cosine_in_unit_interval:
  assumes "distinct (map fst qv)" "distinct (map fst vec)"
    and "\<forall>e \<in> set qv. 0 \<le> snd e" "\<forall>e \<in> set vec. 0 \<le> snd e"
  defines "sc \<equiv> (if vector_length vec > 0 \<and> vector_length qv > 0
                   then dot_product qv vec / (vector_length vec * vector_length qv)
                   else dot_product qv vec)"
  shows "0 \<le> sc" and "sc \<le> 1"
    and "vector_length vec = 0 \<or> vector_length qv = 0 \<Longrightarrow> sc = 0"
proof -
  have nn: "0 \<le> dot_product qv vec"
    using assms(3,4) by (rule dot_product_nonneg)
  have le: "dot_product qv vec \<le> vector_length qv * vector_length vec"
    using dot_product_bound [OF assms(1,2)] by (simp add: vector_length_sum_squares)
  have z: "dot_product qv vec = 0" if "\<not> (vector_length vec > 0 \<and> vector_length qv > 0)"
  proof -
    from that vector_length_nonneg [of vec] vector_length_nonneg [of qv]
    have "vector_length vec = 0 \<or> vector_length qv = 0" by linarith
    then have "vector_length qv * vector_length vec = 0" by auto
    with nn le show ?thesis by linarith
  qed
  show "0 \<le> sc"
    using nn vector_length_nonneg [of vec] vector_length_nonneg [of qv]
    by (simp add: sc_def)
  show "sc \<le> 1"
  proof (cases "vector_length vec > 0 \<and> vector_length qv > 0")
    case True
    then have "0 < vector_length vec * vector_length qv" by simp
    then show ?thesis
      using le True by (simp add: sc_def divide_le_eq_1 mult.commute)
  next
    case False
    then show ?thesis using z by (simp add: sc_def)
  qed
  show "sc = 0" if "vector_length vec = 0 \<or> vector_length qv = 0"
  proof -
    from that have "\<not> (vector_length vec > 0 \<and> vector_length qv > 0)" by auto
    then show ?thesis using z by (simp add: sc_def)
  qed
qed

lemma built_score_bounds:
  assumes "build_index fs (init dir file) = Inr (s, fs')" and "d \<in> fst ` set (documents s)"
  shows "\<exists>sc len. document_score s (query_vector_of s ts) (vector_length (query_vector_of s ts)) d
                     = Inr sc
           \<and> dict_get (doc_lengths s) d = Inr len
           \<and> 0 \<le> sc \<and> sc \<le> 1
           \<and> (len = 0 \<or> vector_length (query_vector_of s ts) = 0 \<longrightarrow> sc = 0)"
proof -
  let ?qv = "query_vector_of s ts"
  from built_document_score [OF assms, of ?qv "vector_length ?qv"] obtain vec where
    len: "map_of (doc_lengths s) d = Some (vector_length vec)" and
    dv: "distinct (map fst vec)" and nv: "\<forall>e \<in> set vec. 0 \<le> snd e" and
    sc: "document_score s ?qv (vector_length ?qv) d =
           Inr (if vector_length vec > 0 \<and> vector_length ?qv > 0
                then dot_product ?qv vec / (vector_length vec * vector_length ?qv)
                else dot_product ?qv vec)"
    by blast
  have dq: "distinct (map fst ?qv)" by (rule distinct_query_vector)
  have nq: "\<forall>e \<in> set ?qv. 0 \<le> snd e"
    using built_query_vector_nonneg [OF assms(1)] by blast
  note c = cosine_in_unit_interval [OF dq dv nq nv]
  have "dict_get (doc_lengths s) d = Inr (vector_length vec)"
    by (simp add: dict_get_def len)
  with sc c show ?thesis by blast
qed

text \<open>
  The scores over the reals. In this theory the logarithm, the products, the sums, the
  square root and the final quotient of a score are those of the reals; the source computes
  each of them in double precision, where a rounded quotient of a dot product by a rounded
  product of two rounded norms can exceed 1 by one unit in the last place. The lemma below
  is therefore a fact about the cosine formula, read over the reals, on an index built on a
  freshly constructed engine; it is not a bound on the doubles that \<^verbatim>\<open>search\<close> returns.
\<close>

lemma score_bounds_over_reals:
  assumes "build_index fs (init dir file) = Inr (s, fs')"
  shows "(\<forall>doc \<in> set (documents s).
            \<exists>sc len.
              document_score s (query_vector_of s (preprocess_text query))
                (vector_length (query_vector_of s (preprocess_text query))) (fst doc) = Inr sc
              \<and> dict_get (doc_lengths s) (fst doc) = Inr len
              \<and> 0 \<le> sc \<and> sc \<le> 1
              \<and> (len = 0 \<or> vector_length (query_vector_of s (preprocess_text query)) = 0
                    \<longrightarrow> sc = 0 \<and> (\<forall>rs. search s query top_k = Inr rs
                                        \<longrightarrow> fst doc \<notin> doc_id ` set rs)))
         \<and> (\<exists>rs. search s query top_k = Inr rs
               \<and> (\<forall>r \<in> set rs.
                     document_score s (query_vector_of s (preprocess_text query))
                       (vector_length (query_vector_of s (preprocess_text query))) (doc_id r)
                       = Inr (score r)
                     \<and> 0 < score r \<and> score r \<le> 1))"
proof -
  let ?ts = "preprocess_text query"
  let ?qv = "query_vector_of s ?ts"
  let ?ql = "vector_length ?qv"
  have res: "document_score s ?qv ?ql (doc_id r) = Inr (score r) \<and> 0 < score r
             \<and> doc_id r \<in> fst ` set (documents s)"
    if "search s query top_k = Inr rs" and "r \<in> set rs" for rs r
  proof -
    from that have "rs \<noteq> []" by auto
    from search_results_from [OF that(1) this] obtain scores where
      sd: "score_documents s ?qv ?ql [] (documents s) = Inr scores" and
      mr: "make_results s ?ts (slice_to top_k (sorted_reverse scores)) = Inr rs"
      by blast
    from make_results_fields [OF mr that(2)]
    have "(doc_id r, score r) \<in> set (slice_to top_k (sorted_reverse scores))"
      by blast
    moreover obtain n where "slice_to top_k (sorted_reverse scores) = take n (sorted_reverse scores)"
      using slice_to_take by blast
    ultimately have "(doc_id r, score r) \<in> set (take n (sorted_reverse scores))" by simp
    then have "(doc_id r, score r) \<in> set (sorted_reverse scores)" by (rule in_set_takeD)
    then have "(doc_id r, score r) \<in> set scores" by (simp only: set_sorted_reverse)
    from score_documents_entries [OF sd this] show ?thesis by simp
  qed
  have 1: "\<exists>sc len.
              document_score s ?qv ?ql (fst doc) = Inr sc
              \<and> dict_get (doc_lengths s) (fst doc) = Inr len
              \<and> 0 \<le> sc \<and> sc \<le> 1
              \<and> (len = 0 \<or> ?ql = 0
                    \<longrightarrow> sc = 0 \<and> (\<forall>rs. search s query top_k = Inr rs
                                        \<longrightarrow> fst doc \<notin> doc_id ` set rs))"
    if "doc \<in> set (documents s)" for doc
  proof -
    from that have "fst doc \<in> fst ` set (documents s)" by simp
    from built_score_bounds [OF assms this, of ?ts] obtain sc len where
      sc: "document_score s ?qv ?ql (fst doc) = Inr sc" and
      len: "dict_get (doc_lengths s) (fst doc) = Inr len" and
      b: "0 \<le> sc" "sc \<le> 1" and z: "len = 0 \<or> ?ql = 0 \<longrightarrow> sc = 0"
      by blast
    have "fst doc \<notin> doc_id ` set rs" if "sc = 0" and "search s query top_k = Inr rs" for rs
    proof
      assume "fst doc \<in> doc_id ` set rs"
      then obtain r where r: "r \<in> set rs" "doc_id r = fst doc" by auto
      from res [OF that(2) r(1)] sc have "score r = sc" "0 < score r"
        by (simp_all add: r(2))
      with that(1) show False by simp
    qed
    with sc len b z show ?thesis by blast
  qed
  from built_search_returns [OF assms, of query top_k] obtain rs where
    rs: "search s query top_k = Inr rs" by blast
  have 2: "document_score s ?qv ?ql (doc_id r) = Inr (score r) \<and> 0 < score r \<and> score r \<le> 1"
    if "r \<in> set rs" for r
  proof -
    from res [OF rs that] have
      sc: "document_score s ?qv ?ql (doc_id r) = Inr (score r)" "0 < score r"
      and d: "doc_id r \<in> fst ` set (documents s)"
      by blast+
    from built_score_bounds [OF assms d, of ?ts] sc(1) have "score r \<le> 1" by auto
    with sc show ?thesis by blast
  qed
  from 1 2 rs show ?thesis by blast
qed

section \<open>Rebuilding\<close>

lemma removed_build:
  "build_index removed_env (init ''articles'' ''metadata.csv'') =
     Inr (removed_engine, save_index ''index.pkl'' removed_engine removed_env)"
  by (simp add: build_index_def removed_env_def init_def removed_engine_def
      example_meta_def loader_defs tokenizer_defs builder_defs numeral_2_eq_2)

lemma postings_for_filter:
  "postings_for t (filter (\<lambda>doc. fst doc \<noteq> d) docs)
     = filter (\<lambda>p. fst p \<noteq> d) (postings_for t docs)"
  by (induction docs) (auto simp: postings_for_def posting_of_def Let_def)

lemma length_filter_key:
  "distinct (map fst docs) \<Longrightarrow> length (filter (\<lambda>doc. fst doc = d) docs) \<le> 1"
proof (induction docs)
  case Nil
  show ?case by simp
next
  case (Cons doc docs)
  show ?case
  proof (cases "fst doc = d")
    case True
    with Cons.prems have "d \<notin> fst ` set docs" by auto
    then have "filter (\<lambda>doc. fst doc = d) docs = []"
      by (auto simp: filter_empty_conv)
    then show ?thesis by (simp add: True)
  next
    case False
    with Cons show ?thesis by simp
  qed
qed

lemma build_index_ignores_N:
  assumes "documents s0 = []" "metadata s0 = []" "inverted_index s0 = []"
    "idf_values s0 = []" "doc_vectors s0 = []" "doc_lengths s0 = []"
  shows "build_index fs s0 = build_index fs (init (articles_dir s0) (metadata_file s0))"
proof -
  have s0: "s0 = (init (articles_dir s0) (metadata_file s0))\<lparr>N := N s0\<rparr>"
    using assms by (simp add: init_def)
  have "load_documents fs (s\<lparr>N := n\<rparr>) = load_documents fs s" for s :: ir_system and n
    by (simp add: load_documents_def cong: option.case_cong sum.case_cong)
  then have "load_documents fs s0 = load_documents fs (init (articles_dir s0) (metadata_file s0))"
    using s0 by metis
  then show ?thesis by (simp add: build_index_def)
qed

text \<open>
  Claim C5 says that a build replaces any prior index state. The source never clears
  \<^verbatim>\<open>self.inverted_index\<close>: a second \<^verbatim>\<open>build_index\<close> on the engine that was built
  from the example corpus appends every posting once more.
\<close>

theorem rebuild_appends_counterexample:
  "map_sum id (\<lambda>r. inverted_index (fst r)) (build_index example_env example_engine)
     = Inr [(''alpha'', [(2, 1), (1, 1), (2, 1), (1, 1)]), (''beta'', [(3, 1), (3, 1)])]
   \<and> map_sum id (\<lambda>r. inverted_index (fst r))
        (build_index example_env (init ''articles'' ''metadata.csv''))
     = Inr [(''alpha'', [(2, 1), (1, 1)]), (''beta'', [(3, 1)])]"
proof
  show "map_sum id (\<lambda>r. inverted_index (fst r)) (build_index example_env example_engine)
     = Inr [(''alpha'', [(2, 1), (1, 1), (2, 1), (1, 1)]), (''beta'', [(3, 1), (3, 1)])]"
    by (simp add: build_index_def example_env_def init_def example_engine_def example_meta_def
      loader_defs tokenizer_defs builder_defs numeral_3_eq_3)
  show "map_sum id (\<lambda>r. inverted_index (fst r))
        (build_index example_env (init ''articles'' ''metadata.csv''))
     = Inr [(''alpha'', [(2, 1), (1, 1)]), (''beta'', [(3, 1)])]"
    by (simp add: example_build) (simp add: example_engine_def)
qed

text \<open>
  Claim C5, amended: a build on an engine whose tables are all empty, whatever its
  \<open>N\<close>, gives exactly the result of a build from a fresh engine; and when the corpus
  loaded for a second build from a fresh engine is the corpus of a first one without the
  document \<open>d\<close>, then \<open>N\<close> drops by at most one, every posting list of the second
  index is the list of the first without the postings of \<open>d\<close> (a term whose list
  becomes empty is gone), and the list of a term without a posting of \<open>d\<close> is unchanged.
\<close>

theorem build_from_empty_tables:
  "(documents s0 = [] \<and> metadata s0 = [] \<and> inverted_index s0 = [] \<and> idf_values s0 = []
      \<and> doc_vectors s0 = [] \<and> doc_lengths s0 = []
      \<longrightarrow> build_index fs0 s0 = build_index fs0 (init (articles_dir s0) (metadata_file s0)))
   \<and> (build_index fs (init dir file) = Inr (s, fs1)
      \<and> build_index fs' (init dir' file') = Inr (s', fs1')
      \<and> documents s' = filter (\<lambda>doc. fst doc \<noteq> d) (documents s)
      \<longrightarrow> N s' \<le> N s \<and> N s - N s' \<le> 1
          \<and> (\<forall>t. map_of (inverted_index s') t =
                 (case map_of (inverted_index s) t of
                    None \<Rightarrow> None
                  | Some ps \<Rightarrow> if filter (\<lambda>p. fst p \<noteq> d) ps = [] then None
                              else Some (filter (\<lambda>p. fst p \<noteq> d) ps)))
          \<and> (\<forall>t ps. map_of (inverted_index s) t = Some ps \<and> d \<notin> fst ` set ps
                 \<longrightarrow> map_of (inverted_index s') t = Some ps))"
proof (rule conjI)
  show "documents s0 = [] \<and> metadata s0 = [] \<and> inverted_index s0 = [] \<and> idf_values s0 = []
      \<and> doc_vectors s0 = [] \<and> doc_lengths s0 = []
      \<longrightarrow> build_index fs0 s0 = build_index fs0 (init (articles_dir s0) (metadata_file s0))"
    by (intro impI build_index_ignores_N) simp_all
next
  show "build_index fs (init dir file) = Inr (s, fs1)
      \<and> build_index fs' (init dir' file') = Inr (s', fs1')
      \<and> documents s' = filter (\<lambda>doc. fst doc \<noteq> d) (documents s)
      \<longrightarrow> N s' \<le> N s \<and> N s - N s' \<le> 1
          \<and> (\<forall>t. map_of (inverted_index s') t =
                 (case map_of (inverted_index s) t of
                    None \<Rightarrow> None
                  | Some ps \<Rightarrow> if filter (\<lambda>p. fst p \<noteq> d) ps = [] then None
                              else Some (filter (\<lambda>p. fst p \<noteq> d) ps)))
          \<and> (\<forall>t ps. map_of (inverted_index s) t = Some ps \<and> d \<notin> fst ` set ps
                 \<longrightarrow> map_of (inverted_index s') t = Some ps)"
  proof (rule impI)
    assume a: "build_index fs (init dir file) = Inr (s, fs1)
        \<and> build_index fs' (init dir' file') = Inr (s', fs1')
        \<and> documents s' = filter (\<lambda>doc. fst doc \<noteq> d) (documents s)"
    then have b1: "build_index fs (init dir file) = Inr (s, fs1)"
      and b2: "build_index fs' (init dir' file') = Inr (s', fs1')"
      and docs: "documents s' = filter (\<lambda>doc. fst doc \<noteq> d) (documents s)"
      by blast+
    note b = build_index_fresh [OF b1] and b' = build_index_fresh [OF b2]
    have sum: "length (filter (\<lambda>doc. fst doc = d) (documents s))
                 + length (filter (\<lambda>doc. fst doc \<noteq> d) (documents s)) = length (documents s)"
      using sum_length_filter_compl [of "\<lambda>doc. fst doc = d" "documents s"] by simp
    have one: "length (filter (\<lambda>doc. fst doc = d) (documents s)) \<le> 1"
      using b(1) by (rule length_filter_key)
    from sum one have n: "N s' \<le> N s \<and> N s - N s' \<le> 1"
      by (simp add: b(3) b'(3) docs)
    have idx: "map_of (inverted_index s') t =
                   (case map_of (inverted_index s) t of
                      None \<Rightarrow> None
                    | Some ps \<Rightarrow> if filter (\<lambda>p. fst p \<noteq> d) ps = [] then None
                                else Some (filter (\<lambda>p. fst p \<noteq> d) ps))" for t
      by (simp add: b(4) b'(4) docs map_of_fresh_index postings_for_filter)
    have same: "map_of (inverted_index s') t = Some ps"
      if h: "map_of (inverted_index s) t = Some ps \<and> d \<notin> fst ` set ps" for t ps
    proof -
      from h have "filter (\<lambda>p. fst p \<noteq> d) ps = ps"
        by (auto simp: filter_id_conv)
      moreover from h have "ps \<noteq> []"
        by (auto simp: b(4) map_of_fresh_index split: if_splits)
      ultimately show ?thesis
        using h by (simp add: idx)
    qed
    from n idx same show "N s' \<le> N s \<and> N s - N s' \<le> 1
          \<and> (\<forall>t. map_of (inverted_index s') t =
                 (case map_of (inverted_index s) t of
                    None \<Rightarrow> None
                  | Some ps \<Rightarrow> if filter (\<lambda>p. fst p \<noteq> d) ps = [] then None
                              else Some (filter (\<lambda>p. fst p \<noteq> d) ps)))
          \<and> (\<forall>t ps. map_of (inverted_index s) t = Some ps \<and> d \<notin> fst ` set ps
                 \<longrightarrow> map_of (inverted_index s') t = Some ps)"
      by blast
  qed
qed

theorem build_from_empty_tables_witness:
  "build_index example_env ((init ''articles'' ''metadata.csv'')\<lparr>N := 7\<rparr>)
     = build_index example_env (init ''articles'' ''metadata.csv'')
   \<and> build_index example_env (init ''articles'' ''metadata.csv'')
       = Inr (example_engine, save_index ''index.pkl'' example_engine example_env)
   \<and> build_index removed_env (init ''articles'' ''metadata.csv'')
       = Inr (removed_engine, save_index ''index.pkl'' removed_engine removed_env)
   \<and> documents removed_engine = filter (\<lambda>doc. fst doc \<noteq> 2) (documents example_engine)
   \<and> N removed_engine \<le> N example_engine \<and> N example_engine - N removed_engine \<le> 1
   \<and> map_of (inverted_index removed_engine) ''beta'' = Some [(3, 1)]"
proof -
  let ?s0 = "(init ''articles'' ''metadata.csv'')\<lparr>N := 7\<rparr>"
  have e: "documents ?s0 = [] \<and> metadata ?s0 = [] \<and> inverted_index ?s0 = [] \<and> idf_values ?s0 = []
      \<and> doc_vectors ?s0 = [] \<and> doc_lengths ?s0 = []"
    and c: "articles_dir ?s0 = ''articles''" "metadata_file ?s0 = ''metadata.csv''"
    by (simp_all add: init_def)
  have r: "documents removed_engine = filter (\<lambda>doc. fst doc \<noteq> 2) (documents example_engine)"
    by (simp add: removed_engine_def example_engine_def)
  have m: "map_of (inverted_index example_engine) ''beta'' = Some [(3, 1)] \<and> 2 \<notin> fst ` set [(3::int, 1::real)]"
    by (simp add: example_engine_def)
  note t = build_from_empty_tables [of ?s0 example_env example_env "''articles''" "''metadata.csv''"
      example_engine "save_index ''index.pkl'' example_engine example_env"
      removed_env "''articles''" "''metadata.csv''" removed_engine
      "save_index ''index.pkl'' removed_engine removed_env" 2]
  from t e c have 1: "build_index example_env ?s0
     = build_index example_env (init ''articles'' ''metadata.csv'')"
    by simp
  from t example_build removed_build r have 2:
    "N removed_engine \<le> N example_engine \<and> N example_engine - N removed_engine \<le> 1
     \<and> (\<forall>t ps. map_of (inverted_index example_engine) t = Some ps \<and> 2 \<notin> fst ` set ps
                 \<longrightarrow> map_of (inverted_index removed_engine) t = Some ps)"
    by blast
  then have 3: "map_of (inverted_index removed_engine) ''beta'' = Some [(3, 1)]"
    using m by blast
  from 1 2 3 example_build removed_build r show ?thesis by blast
qed

end
